theory Spec2Isabelle
  imports Main "HOL-Library.Sublist"
begin

section \<open>Category manager (processor.py, class CategoryManager)\<close>

subsection \<open>Python strings and dictionaries\<close>

text \<open>
  Strings are lists of characters. \<open>str.lower()\<close> is Python's own function and is not
  modelled: it is the parameter \<open>lower\<close> of every function that calls it, and the
  theorems hold for any function in its place. On ASCII text \<open>str.lower()\<close> maps the
  letters A to Z to a to z and leaves every other character as it is; that function,
  \<open>ascii_lower\<close>, stands for it in the examples, which are ASCII.
\<close>

type_synonym str_lower = "string \<Rightarrow> string"

definition ascii_lower_char :: "char \<Rightarrow> char" where
  "ascii_lower_char c =
     (case map_of (zip ''ABCDEFGHIJKLMNOPQRSTUVWXYZ'' ''abcdefghijklmnopqrstuvwxyz'') c of
        Some d \<Rightarrow> d
      | None \<Rightarrow> c)"

definition ascii_lower :: str_lower where
  "ascii_lower s = map ascii_lower_char s"

text \<open>\<open>p in s\<close> on strings: \<open>p\<close> occurs in \<open>s\<close> as a contiguous block.\<close>

fun starts_with :: "string \<Rightarrow> string \<Rightarrow> bool" where
  "starts_with s [] = True"
| "starts_with [] (p # ps) = False"
| "starts_with (c # cs) (p # ps) = (c = p \<and> starts_with cs ps)"

fun contains :: "string \<Rightarrow> string \<Rightarrow> bool" where
  "contains [] p = (p = [])"
| "contains (c # cs) p = (starts_with (c # cs) p \<or> contains cs p)"

text \<open>
  A Python \<open>dict\<close> keeps its keys in insertion order, and an assignment to a key that
  is already present replaces the value where the key stands. It is an association list
  with that assignment.
\<close>

fun dict_set :: "('k \<times> 'v) list \<Rightarrow> 'k \<Rightarrow> 'v \<Rightarrow> ('k \<times> 'v) list" where
  "dict_set [] k v = [(k, v)]"
| "dict_set ((k', v') # kvs) k v =
     (if k' = k then (k, v) # kvs else (k', v') # dict_set kvs k v)"

subsection \<open>The rule source: the parsed JSON file\<close>

datatype json =
    JNull
  | JBool bool
  | JNum int
  | JStr string
  | JArr "json list"
  | JObj "(string \<times> json) list"

text \<open>
  What \<open>load_categories\<close> finds at \<open>categories_path\<close>: no file, a file that
  \<open>open\<close> or \<open>json.load\<close> raises on, or a file with the value \<open>json.load\<close> returns.
\<close>

datatype source = Missing | Unreadable | Content json

datatype py_error =
    AttributeError
  | TypeError
  | JSONDecodeError
  | OperationalError
  | IntegrityError

text \<open>\<open>d.get(key, default)\<close>: only a dict has the method.\<close>

fun py_get :: "json \<Rightarrow> string \<Rightarrow> json \<Rightarrow> py_error + json" where
  "py_get (JObj kvs) key dflt = Inr (case map_of kvs key of Some v \<Rightarrow> v | None \<Rightarrow> dflt)"
| "py_get _ key dflt = Inl AttributeError"

text \<open>\<open>d.items()\<close>: only a dict has the method.\<close>

fun py_items :: "json \<Rightarrow> py_error + (string \<times> json) list" where
  "py_items (JObj kvs) = Inr kvs"
| "py_items _ = Inl AttributeError"

text \<open>
  \<open>for app in x\<close>: a list gives its elements, a string its characters, a dict its keys;
  nothing else can be iterated.
\<close>

fun py_iter :: "json \<Rightarrow> py_error + json list" where
  "py_iter (JArr xs) = Inr xs"
| "py_iter (JStr s) = Inr (map (\<lambda>c. JStr [c]) s)"
| "py_iter (JObj kvs) = Inr (map (\<lambda>kv. JStr (fst kv)) kvs)"
| "py_iter _ = Inl TypeError"

text \<open>\<open>app.lower()\<close>: only a string has the method.\<close>

fun py_lower :: "str_lower \<Rightarrow> json \<Rightarrow> py_error + string" where
  "py_lower lower (JStr s) = Inr (lower s)"
| "py_lower lower _ = Inl AttributeError"

subsection \<open>The manager's state and the log\<close>

record category_manager =
  categories :: json
  app_mappings :: "(string \<times> string) list"

datatype log_entry =
    CategoriesLoaded nat nat
  | CategoriesFileNotFound
  | CategoriesError py_error
  | AppCategoriesUpdated nat
  | AppCategoriesError py_error
  | HourlyNoData
  | HourlyProcessed nat nat
  | HourlyError py_error
  | DailyNoData
  | DailyProcessed nat nat nat
  | DailyError py_error
  | CycleStarted
  | CycleCompleted

text \<open>
  The inner loop \<open>for app in info.get('apps', []): self.app_mappings[app.lower()] = category\<close>.
  An exception leaves the mappings assigned so far in place, so the error carries them.
\<close>

fun load_apps ::
  "str_lower \<Rightarrow> string \<Rightarrow> json list \<Rightarrow> (string \<times> string) list
     \<Rightarrow> (py_error \<times> (string \<times> string) list) + (string \<times> string) list" where
  "load_apps lower category [] m = Inr m"
| "load_apps lower category (app # apps) m =
     (case py_lower lower app of
        Inl e \<Rightarrow> Inl (e, m)
      | Inr a \<Rightarrow> load_apps lower category apps (dict_set m a category))"

text \<open>The outer loop \<open>for category, info in self.categories.items()\<close>.\<close>

fun load_items ::
  "str_lower \<Rightarrow> (string \<times> json) list \<Rightarrow> (string \<times> string) list
     \<Rightarrow> (py_error \<times> (string \<times> string) list) + (string \<times> string) list" where
  "load_items lower [] m = Inr m"
| "load_items lower ((category, info) # rest) m =
     (case py_get info ''apps'' (JArr []) of
        Inl e \<Rightarrow> Inl (e, m)
      | Inr apps \<Rightarrow>
          (case py_iter apps of
             Inl e \<Rightarrow> Inl (e, m)
           | Inr as \<Rightarrow>
               (case load_apps lower category as m of
                  Inl em \<Rightarrow> Inl em
                | Inr m' \<Rightarrow> load_items lower rest m')))"

text \<open>
  \<open>load_categories\<close>. Every exception is caught and logged, so the function returns the
  manager and the log lines. The fields are assigned in the order of the source:
  \<open>self.categories\<close> first, then \<open>self.app_mappings = {}\<close>, then one mapping at a time.
\<close>

definition load_categories ::
  "str_lower \<Rightarrow> source \<Rightarrow> category_manager \<Rightarrow> category_manager \<times> log_entry list" where
  "load_categories lower src cm =
     (case src of
        Missing \<Rightarrow> (cm, [CategoriesFileNotFound])
      | Unreadable \<Rightarrow> (cm, [CategoriesError JSONDecodeError])
      | Content data \<Rightarrow>
          (case py_get data ''categories'' (JObj []) of
             Inl e \<Rightarrow> (cm, [CategoriesError e])
           | Inr cats \<Rightarrow>
               (case py_items cats of
                  Inl e \<Rightarrow> (\<lparr>categories = cats, app_mappings = []\<rparr>, [CategoriesError e])
                | Inr items \<Rightarrow>
                    (case load_items lower items [] of
                       Inl (e, m) \<Rightarrow> (\<lparr>categories = cats, app_mappings = m\<rparr>, [CategoriesError e])
                     | Inr m \<Rightarrow>
                         (\<lparr>categories = cats, app_mappings = m\<rparr>,
                          [CategoriesLoaded (length m) (length items)])))))"

text \<open>\<open>CategoryManager.__init__\<close>: both fields empty, then the first load.\<close>

definition empty_manager :: category_manager where
  "empty_manager = \<lparr>categories = JObj [], app_mappings = []\<rparr>"

definition new_manager :: "str_lower \<Rightarrow> source \<Rightarrow> category_manager \<times> log_entry list" where
  "new_manager lower src = load_categories lower src empty_manager"

subsection \<open>Classification (get_category)\<close>

text \<open>
  The loop \<open>for app_pattern, category in self.app_mappings.items()\<close> with its early
  return, and the final \<open>return "Other"\<close>.
\<close>

fun partial_match :: "(string \<times> string) list \<Rightarrow> string \<Rightarrow> string" where
  "partial_match [] app_lower = ''Other''"
| "partial_match ((app_pattern, category) # rest) app_lower =
     (if contains app_lower app_pattern then category else partial_match rest app_lower)"

definition get_category :: "str_lower \<Rightarrow> category_manager \<Rightarrow> string \<Rightarrow> string" where
  "get_category lower cm app_name =
     (if app_name = [] then ''Other''
      else let app_lower = lower app_name in
        (case map_of (app_mappings cm) app_lower of
           Some category \<Rightarrow> category
         | None \<Rightarrow> partial_match (app_mappings cm) app_lower))"

text \<open>
  The resolution order in the words of the specification, over the flattened map \<open>m\<close>:
  the empty name is "Other"; otherwise the exact match; otherwise the first pattern, in
  iteration order, that is a substring of the lowercased name; otherwise "Other".
\<close>

definition classify_spec :: "str_lower \<Rightarrow> (string \<times> string) list \<Rightarrow> string \<Rightarrow> string" where
  "classify_spec lower m app_name =
     (if app_name = [] then ''Other''
      else if lower app_name \<in> fst ` set m then the (map_of m (lower app_name))
      else (case find (\<lambda>pc. sublist (fst pc) (lower app_name)) m of
              Some pc \<Rightarrow> snd pc
            | None \<Rightarrow> ''Other''))"

section \<open>The database\<close>

subsection \<open>Time\<close>

text \<open>
  The collector writes \<open>datetime.now().isoformat()\<close> into \<open>events.timestamp\<close>: the text
  \<open>YYYY-MM-DDTHH:MM:SS.ffffff\<close>. The processor compares these texts with each other and
  takes the date and the hour out of them. Texts of this shape are ordered as the
  instants they denote, so a timestamp is the number of microseconds since
  \<open>1970-01-01T00:00:00\<close>, a date is the number of days since \<open>1970-01-01\<close>, and an hour is
  a number from 0 to 23.
\<close>

definition us_per_hour :: int where
  "us_per_hour = 3600000000"

definition us_per_day :: int where
  "us_per_day = 86400000000"

text \<open>The instant of day \<open>d\<close> at \<open>h:m:s\<close> and \<open>us\<close> microseconds.\<close>

definition instant :: "int \<Rightarrow> int \<Rightarrow> int \<Rightarrow> int \<Rightarrow> int \<Rightarrow> int" where
  "instant d h m s us = (((d * 24 + h) * 60 + m) * 60 + s) * 1000000 + us"

subsection \<open>Rows and tables (models.py)\<close>

text \<open>
  The columns the processor reads or writes. The \<open>id\<close> and \<open>created_at\<close> columns are
  filled in by the database and never read by the processor; they are left out.
\<close>

record event =
  e_timestamp :: int
  e_device_type :: string
  e_app_name :: string
  e_website_url :: "string option"
  e_duration_seconds :: int

record hourly_row =
  h_date :: int
  h_hour :: nat
  h_device_type :: string
  h_app_name :: string
  h_website_url :: "string option"
  h_category :: string
  h_total_seconds :: int
  h_event_count :: int

record daily_row =
  d_date :: int
  d_device_type :: string
  d_app_name :: string
  d_website_url :: "string option"
  d_category :: string
  d_total_seconds :: int
  d_event_count :: int

record daily_category_row =
  c_date :: int
  c_device_type :: string
  c_category :: string
  c_total_seconds :: int

record app_category_row =
  a_app_name :: string
  a_category :: string

record database =
  events :: "event list"
  hourly_usage :: "hourly_row list"
  daily_usage :: "daily_row list"
  daily_category_usage :: "daily_category_row list"
  app_categories :: "app_category_row list"

subsection \<open>Connections, transactions and storage errors\<close>

text \<open>
  A connection sees the database file (\<open>committed\<close>) through its own open transaction
  (\<open>working\<close>). Statements read and change \<open>working\<close>; only \<open>commit\<close> writes it to the
  file. A connection that is closed or dropped without a commit loses \<open>working\<close>, so what
  a function leaves behind is \<open>committed\<close>.

  A storage error (the database is locked, the disk fails) is the call of the connection
  that \<open>fault\<close> numbers, counting \<open>execute\<close> and \<open>commit\<close> calls from 0; \<open>None\<close> is a
  run without storage errors. A failed call changes nothing.
\<close>

record connection =
  committed :: database
  working :: database
  executed :: nat
  fault :: "nat option"

type_synonym 'a db_result = "(py_error \<times> connection) + ('a \<times> connection)"

definition connect :: "database \<Rightarrow> nat option \<Rightarrow> connection" where
  "connect db f = \<lparr>committed = db, working = db, executed = 0, fault = f\<rparr>"

text \<open>\<open>cursor.execute(stmt)\<close>.\<close>

definition execute ::
  "(database \<Rightarrow> py_error + ('a \<times> database)) \<Rightarrow> connection \<Rightarrow> 'a db_result" where
  "execute stmt c =
     (if fault c = Some (executed c)
      then Inl (OperationalError, c\<lparr>executed := Suc (executed c)\<rparr>)
      else (case stmt (working c) of
              Inl e \<Rightarrow> Inl (e, c\<lparr>executed := Suc (executed c)\<rparr>)
            | Inr (r, w) \<Rightarrow> Inr (r, c\<lparr>working := w, executed := Suc (executed c)\<rparr>)))"

text \<open>\<open>conn.commit()\<close>.\<close>

definition commit :: "connection \<Rightarrow> unit db_result" where
  "commit c =
     (if fault c = Some (executed c)
      then Inl (OperationalError, c\<lparr>executed := Suc (executed c)\<rparr>)
      else Inr ((), c\<lparr>committed := working c, executed := Suc (executed c)\<rparr>))"

text \<open>Sequencing: an exception skips the rest of the \<open>try\<close> block.\<close>

definition and_then ::
  "'a db_result \<Rightarrow> ('a \<Rightarrow> connection \<Rightarrow> 'b db_result) \<Rightarrow> 'b db_result" where
  "and_then r k = (case r of Inl ec \<Rightarrow> Inl ec | Inr (x, c) \<Rightarrow> k x c)"

text \<open>A \<open>for\<close> loop whose body makes calls on the connection.\<close>

fun for_each ::
  "('x \<Rightarrow> connection \<Rightarrow> unit db_result) \<Rightarrow> 'x list \<Rightarrow> connection \<Rightarrow> unit db_result" where
  "for_each body [] c = Inr ((), c)"
| "for_each body (x # xs) c =
     (case body x c of
        Inl ec \<Rightarrow> Inl ec
      | Inr (u, c') \<Rightarrow> for_each body xs c')"

text \<open>
  \<open>GROUP BY\<close>: one group for each key that occurs, holding the rows with that key. SQL
  leaves the order of the groups open.
\<close>

definition group_by :: "('a \<Rightarrow> 'k) \<Rightarrow> 'a list \<Rightarrow> ('k \<times> 'a list) list" where
  "group_by key xs = map (\<lambda>k. (k, filter (\<lambda>x. key x = k) xs)) (remdups (map key xs))"

text \<open>\<open>SELECT MAX(...)\<close>: \<open>NULL\<close> on an empty table.\<close>

fun sql_max :: "int list \<Rightarrow> int option" where
  "sql_max [] = None"
| "sql_max (x # xs) = (case sql_max xs of None \<Rightarrow> Some x | Some y \<Rightarrow> Some (max x y))"

section \<open>Hourly aggregation (_process_hourly_aggregations)\<close>

text \<open>
  \<open>SELECT MAX(date || ' ' || printf('%02d', hour) || ':59:59') FROM hourly_usage\<close>:
  the last second of the latest hour that has a row.
\<close>

definition hour_end :: "hourly_row \<Rightarrow> int" where
  "hour_end r = instant (h_date r) (int (h_hour r)) 59 59 0"

definition select_last_processed_ts :: "database \<Rightarrow> py_error + (int option \<times> database)" where
  "select_last_processed_ts db = Inr (sql_max (map hour_end (hourly_usage db)), db)"

text \<open>\<open>STRFTIME('%Y-%m-%d', timestamp)\<close> and \<open>CAST(STRFTIME('%H', timestamp) AS INTEGER)\<close>.\<close>

definition event_date :: "event \<Rightarrow> int" where
  "event_date e = e_timestamp e div us_per_day"

definition event_hour :: "event \<Rightarrow> nat" where
  "event_hour e = nat ((e_timestamp e mod us_per_day) div us_per_hour)"

text \<open>
  A row of the grouped query: the grouping columns
  \<open>(event_date, event_hour, device_type, app_name, website_url)\<close>, then \<open>COUNT(*)\<close> and
  \<open>SUM(duration_seconds)\<close>.
\<close>

type_synonym hourly_key = "int \<times> nat \<times> string \<times> string \<times> string option"

type_synonym hourly_group = "hourly_key \<times> int \<times> int"

definition event_key :: "event \<Rightarrow> hourly_key" where
  "event_key e = (event_date e, event_hour e, e_device_type e, e_app_name e, e_website_url e)"

definition hour_slot :: "hourly_group \<Rightarrow> int \<times> nat" where
  "hour_slot row = (fst (fst row), fst (snd (fst row)))"

definition slot_order :: "hourly_group \<Rightarrow> int" where
  "slot_order row = fst (hour_slot row) * 24 + int (snd (hour_slot row))"

text \<open>
  The grouped query over the events with \<open>timestamp > start_processing_ts\<close>, ordered by
  date and hour.
\<close>

definition hourly_groups :: "int \<Rightarrow> event list \<Rightarrow> hourly_group list" where
  "hourly_groups start_processing_ts es =
     sort_key slot_order
       (map (\<lambda>(k, es). (k, int (length es), sum_list (map e_duration_seconds es)))
          (group_by event_key (filter (\<lambda>e. e_timestamp e > start_processing_ts) es)))"

definition select_hourly_data :: "int \<Rightarrow> database \<Rightarrow> py_error + (hourly_group list \<times> database)" where
  "select_hourly_data start_processing_ts db =
     Inr (hourly_groups start_processing_ts (events db), db)"

text \<open>\<open>DELETE FROM hourly_usage WHERE date = ? AND hour = ?\<close>.\<close>

definition delete_hourly :: "int \<times> nat \<Rightarrow> database \<Rightarrow> py_error + (unit \<times> database)" where
  "delete_hourly slot db =
     Inr ((), db\<lparr>hourly_usage :=
                  filter (\<lambda>r. (h_date r, h_hour r) \<noteq> slot) (hourly_usage db)\<rparr>)"

text \<open>
  \<open>INSERT INTO hourly_usage\<close>. The table has
  \<open>UNIQUE (date, hour, device_type, app_name, website_url)\<close>; SQLite takes two rows with a
  \<open>NULL\<close> in a constrained column as different.
\<close>

definition hourly_row_key :: "hourly_row \<Rightarrow> hourly_key" where
  "hourly_row_key r = (h_date r, h_hour r, h_device_type r, h_app_name r, h_website_url r)"

definition hourly_conflict :: "hourly_row \<Rightarrow> hourly_row \<Rightarrow> bool" where
  "hourly_conflict r r' = (h_website_url r \<noteq> None \<and> hourly_row_key r' = hourly_row_key r)"

definition insert_hourly :: "hourly_row \<Rightarrow> database \<Rightarrow> py_error + (unit \<times> database)" where
  "insert_hourly r db =
     (if list_ex (hourly_conflict r) (hourly_usage db) then Inl IntegrityError
      else Inr ((), db\<lparr>hourly_usage := hourly_usage db @ [r]\<rparr>))"

text \<open>The row the loop inserts for a group, with the category resolved by the manager.\<close>

definition hourly_row_of :: "str_lower \<Rightarrow> category_manager \<Rightarrow> hourly_group \<Rightarrow> hourly_row" where
  "hourly_row_of lower cm row =
     (case row of ((date, hour, device_type, app_name, website_url),
                   event_count, total_seconds) \<Rightarrow>
        \<lparr>h_date = date, h_hour = hour, h_device_type = device_type,
         h_app_name = app_name, h_website_url = website_url,
         h_category = get_category lower cm app_name,
         h_total_seconds = total_seconds, h_event_count = event_count\<rparr>)"

text \<open>The \<open>try\<close> block. It returns the log line of the path taken.\<close>

definition hourly_body ::
  "str_lower \<Rightarrow> category_manager \<Rightarrow> connection \<Rightarrow> log_entry db_result" where
  "hourly_body lower cm conn =
     and_then (execute select_last_processed_ts conn) (\<lambda>result c1.
       let last_processed_ts = (case result of Some t \<Rightarrow> t | None \<Rightarrow> instant 0 0 0 0 0);
           start_processing_ts = last_processed_ts - 2 * us_per_hour
       in and_then (execute (select_hourly_data start_processing_ts) c1) (\<lambda>hourly_data c2.
            if hourly_data = [] then Inr (HourlyNoData, c2)
            else
              let hours_to_update = remdups (map hour_slot hourly_data)
              in and_then (for_each (\<lambda>slot. execute (delete_hourly slot)) hours_to_update c2)
                   (\<lambda>_ c3.
                 and_then (for_each (\<lambda>row. execute (insert_hourly (hourly_row_of lower cm row)))
                             hourly_data c3) (\<lambda>_ c4.
                 and_then (commit c4) (\<lambda>_ c5.
                   Inr (HourlyProcessed (length hourly_data) (length hours_to_update), c5))))))"

text \<open>
  The function: the \<open>except\<close> clause logs the error. Either way the connection is gone
  when the function returns, and the database is what was committed.
\<close>

definition process_hourly_aggregations ::
  "str_lower \<Rightarrow> nat option \<Rightarrow> category_manager \<Rightarrow> database
     \<Rightarrow> database \<times> log_entry list" where
  "process_hourly_aggregations lower f cm db =
     (case hourly_body lower cm (connect db f) of
        Inl (e, c) \<Rightarrow> (committed c, [HourlyError e])
      | Inr (line, c) \<Rightarrow> (committed c, [line]))"

section \<open>Daily aggregation (_process_daily_aggregations)\<close>

text \<open>\<open>SELECT MAX(date) FROM daily_usage\<close>.\<close>

definition select_last_processed_date :: "database \<Rightarrow> py_error + (int option \<times> database)" where
  "select_last_processed_date db = Inr (sql_max (map d_date (daily_usage db)), db)"

text \<open>
  A row of the grouped query over \<open>hourly_usage\<close>: the grouping columns
  \<open>(date, device_type, app_name, website_url, category)\<close>, then \<open>SUM(total_seconds)\<close> and
  \<open>SUM(event_count)\<close>.
\<close>

type_synonym daily_key = "int \<times> string \<times> string \<times> string option \<times> string"

type_synonym daily_group = "daily_key \<times> int \<times> int"

definition hourly_daily_key :: "hourly_row \<Rightarrow> daily_key" where
  "hourly_daily_key r =
     (h_date r, h_device_type r, h_app_name r, h_website_url r, h_category r)"

definition group_date :: "daily_group \<Rightarrow> int" where
  "group_date row = fst (fst row)"

text \<open>The grouped query over the hourly rows with \<open>date >= start_processing_date\<close>.\<close>

definition daily_groups :: "int \<Rightarrow> hourly_row list \<Rightarrow> daily_group list" where
  "daily_groups start_processing_date hs =
     sort_key group_date
       (map (\<lambda>(k, rs). (k, sum_list (map h_total_seconds rs), sum_list (map h_event_count rs)))
          (group_by hourly_daily_key (filter (\<lambda>r. h_date r \<ge> start_processing_date) hs)))"

definition select_daily_data :: "int \<Rightarrow> database \<Rightarrow> py_error + (daily_group list \<times> database)" where
  "select_daily_data start_processing_date db =
     Inr (daily_groups start_processing_date (hourly_usage db), db)"

text \<open>\<open>DELETE FROM daily_usage WHERE date = ?\<close> and the same on \<open>daily_category_usage\<close>.\<close>

definition delete_daily :: "int \<Rightarrow> database \<Rightarrow> py_error + (unit \<times> database)" where
  "delete_daily date db =
     Inr ((), db\<lparr>daily_usage := filter (\<lambda>r. d_date r \<noteq> date) (daily_usage db)\<rparr>)"

definition delete_daily_category :: "int \<Rightarrow> database \<Rightarrow> py_error + (unit \<times> database)" where
  "delete_daily_category date db =
     Inr ((), db\<lparr>daily_category_usage :=
                  filter (\<lambda>r. c_date r \<noteq> date) (daily_category_usage db)\<rparr>)"

text \<open>
  \<open>INSERT INTO daily_usage\<close>, under \<open>UNIQUE (date, device_type, app_name, website_url)\<close>.
  The category is not part of the constraint.
\<close>

definition daily_conflict :: "daily_row \<Rightarrow> daily_row \<Rightarrow> bool" where
  "daily_conflict r r' =
     (d_website_url r \<noteq> None \<and>
      (d_date r', d_device_type r', d_app_name r', d_website_url r') =
      (d_date r, d_device_type r, d_app_name r, d_website_url r))"

definition insert_daily :: "daily_row \<Rightarrow> database \<Rightarrow> py_error + (unit \<times> database)" where
  "insert_daily r db =
     (if list_ex (daily_conflict r) (daily_usage db) then Inl IntegrityError
      else Inr ((), db\<lparr>daily_usage := daily_usage db @ [r]\<rparr>))"

definition daily_row_of :: "daily_group \<Rightarrow> daily_row" where
  "daily_row_of row =
     (case row of ((date, device_type, app_name, website_url, category),
                   total_seconds, event_count) \<Rightarrow>
        \<lparr>d_date = date, d_device_type = device_type, d_app_name = app_name,
         d_website_url = website_url, d_category = category,
         d_total_seconds = total_seconds, d_event_count = event_count\<rparr>)"

text \<open>
  The second grouped query, over the \<open>daily_usage\<close> rows with
  \<open>date >= start_processing_date\<close>: the grouping columns \<open>(date, device_type, category)\<close>
  and \<open>SUM(total_seconds)\<close>.
\<close>

type_synonym category_key = "int \<times> string \<times> string"

definition daily_category_key :: "daily_row \<Rightarrow> category_key" where
  "daily_category_key r = (d_date r, d_device_type r, d_category r)"

definition category_groups :: "int \<Rightarrow> daily_row list \<Rightarrow> (category_key \<times> int) list" where
  "category_groups start_processing_date ds =
     map (\<lambda>(k, rs). (k, sum_list (map d_total_seconds rs)))
       (group_by daily_category_key (filter (\<lambda>r. d_date r \<ge> start_processing_date) ds))"

definition select_category_data ::
  "int \<Rightarrow> database \<Rightarrow> py_error + ((category_key \<times> int) list \<times> database)" where
  "select_category_data start_processing_date db =
     Inr (category_groups start_processing_date (daily_usage db), db)"

text \<open>\<open>INSERT INTO daily_category_usage\<close>, under \<open>UNIQUE (date, device_type, category)\<close>.\<close>

definition category_row_key :: "daily_category_row \<Rightarrow> category_key" where
  "category_row_key r = (c_date r, c_device_type r, c_category r)"

definition insert_daily_category ::
  "daily_category_row \<Rightarrow> database \<Rightarrow> py_error + (unit \<times> database)" where
  "insert_daily_category r db =
     (if list_ex (\<lambda>r'. category_row_key r' = category_row_key r) (daily_category_usage db)
      then Inl IntegrityError
      else Inr ((), db\<lparr>daily_category_usage := daily_category_usage db @ [r]\<rparr>))"

definition category_row_of :: "category_key \<times> int \<Rightarrow> daily_category_row" where
  "category_row_of row =
     (case row of ((date, device_type, category), total_seconds) \<Rightarrow>
        \<lparr>c_date = date, c_device_type = device_type, c_category = category,
         c_total_seconds = total_seconds\<rparr>)"

text \<open>The \<open>try\<close> block.\<close>

definition daily_body :: "connection \<Rightarrow> log_entry db_result" where
  "daily_body conn =
     and_then (execute select_last_processed_date conn) (\<lambda>result c1.
       let last_processed_date = (case result of Some d \<Rightarrow> d | None \<Rightarrow> 0);
           start_processing_date = last_processed_date - 1
       in and_then (execute (select_daily_data start_processing_date) c1) (\<lambda>daily_data c2.
            if daily_data = [] then Inr (DailyNoData, c2)
            else
              let dates_to_update = sort (remdups (map group_date daily_data))
              in and_then
                   (for_each (\<lambda>date c. and_then (execute (delete_daily date) c)
                                 (\<lambda>_. execute (delete_daily_category date)))
                      dates_to_update c2) (\<lambda>_ c3.
                 and_then (for_each (\<lambda>row. execute (insert_daily (daily_row_of row)))
                             daily_data c3) (\<lambda>_ c4.
                 and_then (execute (select_category_data start_processing_date) c4)
                   (\<lambda>category_data c5.
                 and_then (for_each (\<lambda>row. execute (insert_daily_category (category_row_of row)))
                             category_data c5) (\<lambda>_ c6.
                 and_then (commit c6) (\<lambda>_ c7.
                   Inr (DailyProcessed (length daily_data) (length category_data)
                          (length dates_to_update), c7))))))))"

definition process_daily_aggregations ::
  "nat option \<Rightarrow> database \<Rightarrow> database \<times> log_entry list" where
  "process_daily_aggregations f db =
     (case daily_body (connect db f) of
        Inl (e, c) \<Rightarrow> (committed c, [DailyError e])
      | Inr (line, c) \<Rightarrow> (committed c, [line]))"

section \<open>The app_categories table (_update_app_categories_table)\<close>

text \<open>\<open>DELETE FROM app_categories\<close>.\<close>

definition delete_app_categories :: "database \<Rightarrow> py_error + (unit \<times> database)" where
  "delete_app_categories db = Inr ((), db\<lparr>app_categories := []\<rparr>)"

text \<open>\<open>INSERT INTO app_categories (app_name, category)\<close>; \<open>app_name\<close> is unique.\<close>

definition app_category_row_of :: "string \<times> string \<Rightarrow> app_category_row" where
  "app_category_row_of mapping = \<lparr>a_app_name = fst mapping, a_category = snd mapping\<rparr>"

definition insert_app_category ::
  "app_category_row \<Rightarrow> database \<Rightarrow> py_error + (unit \<times> database)" where
  "insert_app_category r db =
     (if list_ex (\<lambda>r'. a_app_name r' = a_app_name r) (app_categories db)
      then Inl IntegrityError
      else Inr ((), db\<lparr>app_categories := app_categories db @ [r]\<rparr>))"

definition app_categories_body :: "category_manager \<Rightarrow> connection \<Rightarrow> log_entry db_result" where
  "app_categories_body cm conn =
     and_then (execute delete_app_categories conn) (\<lambda>_ c1.
     and_then (for_each (\<lambda>mapping. execute (insert_app_category (app_category_row_of mapping)))
                 (app_mappings cm) c1) (\<lambda>_ c2.
     and_then (commit c2) (\<lambda>_ c3.
       Inr (AppCategoriesUpdated (length (app_mappings cm)), c3))))"

definition update_app_categories_table ::
  "nat option \<Rightarrow> category_manager \<Rightarrow> database \<Rightarrow> database \<times> log_entry list" where
  "update_app_categories_table f cm db =
     (case app_categories_body cm (connect db f) of
        Inl (e, c) \<Rightarrow> (committed c, [AppCategoriesError e])
      | Inr (line, c) \<Rightarrow> (committed c, [line]))"

section \<open>One cycle (process_all)\<close>

text \<open>
  Each of the three database functions opens its own connection, so a cycle has one
  possible storage error for each of them.
\<close>

record faults =
  app_categories_fault :: "nat option"
  hourly_fault :: "nat option"
  daily_fault :: "nat option"

definition no_faults :: faults where
  "no_faults = \<lparr>app_categories_fault = None, hourly_fault = None, daily_fault = None\<rparr>"

text \<open>
  The cycle: reload the rules, rewrite \<open>app_categories\<close>, aggregate by hour, aggregate
  by day. It returns the manager, the database and the log.
\<close>

definition process_all ::
  "str_lower \<Rightarrow> faults \<Rightarrow> source \<Rightarrow> category_manager \<Rightarrow> database
     \<Rightarrow> category_manager \<times> database \<times> log_entry list" where
  "process_all lower fs src cm db =
     (let (cm1, log1) = load_categories lower src cm;
          (db1, log2) = update_app_categories_table (app_categories_fault fs) cm1 db;
          (db2, log3) = process_hourly_aggregations lower (hourly_fault fs) cm1 db1;
          (db3, log4) = process_daily_aggregations (daily_fault fs) db2
      in (cm1, db3, [CycleStarted] @ log1 @ log2 @ log3 @ log4 @ [CycleCompleted]))"

section \<open>Example data\<close>

text \<open>The rule file \<open>{"categories": {"Work": {"apps": ["code"]}, "Browsers": {"apps": ["codefire"]}}}\<close>.\<close>

definition example_rules :: source where
  "example_rules =
     Content (JObj [(''categories'',
       JObj [(''Work'', JObj [(''apps'', JArr [JStr ''code''])]),
             (''Browsers'', JObj [(''apps'', JArr [JStr ''codefire''])])])])"

section \<open>Auxiliary notions for the proofs\<close>

text \<open>
  A computation on a connection keeps the database file as it is, whether it returns or
  raises; or it keeps the file as it is at least when it raises.
\<close>

definition keeps_committed :: "(connection \<Rightarrow> 'a db_result) \<Rightarrow> bool" where
  "keeps_committed m =
     (\<forall>c. case m c of Inl (e, c') \<Rightarrow> committed c' = committed c
                    | Inr (x, c') \<Rightarrow> committed c' = committed c)"

definition fails_clean :: "(connection \<Rightarrow> 'a db_result) \<Rightarrow> bool" where
  "fails_clean m =
     (\<forall>c. case m c of Inl (e, c') \<Rightarrow> committed c' = committed c | Inr (x, c') \<Rightarrow> True)"

text \<open>
  The start of the window of a pass, as \<open>_process_hourly_aggregations\<close> computes it from
  the hourly table: two hours before the last second of the latest hour with a row, or
  two hours before \<open>1970-01-01 00:00:00\<close> on an empty table.
\<close>

definition hourly_window_start :: "database \<Rightarrow> int" where
  "hourly_window_start db =
     (case sql_max (map hour_end (hourly_usage db)) of
        Some t \<Rightarrow> t
      | None \<Rightarrow> instant 0 0 0 0 0) - 2 * us_per_hour"

text \<open>The first date a daily pass reads, as \<open>_process_daily_aggregations\<close> computes it.\<close>

definition daily_window_start :: "database \<Rightarrow> int" where
  "daily_window_start db =
     (case sql_max (map d_date (daily_usage db)) of Some d \<Rightarrow> d | None \<Rightarrow> 0) - 1"

text \<open>The events of a pass's window, and those among some events that share a key.\<close>

definition window_events :: "database \<Rightarrow> event list" where
  "window_events db = filter (\<lambda>e. e_timestamp e > hourly_window_start db) (events db)"

definition same_key :: "event \<Rightarrow> event list \<Rightarrow> event list" where
  "same_key e es = filter (\<lambda>x. event_key x = event_key e) es"

text \<open>The collector's \<open>_save_event\<close>: one more row in \<open>events\<close>.\<close>

definition save_event :: "event \<Rightarrow> database \<Rightarrow> database" where
  "save_event e db = db\<lparr>events := events db @ [e]\<rparr>"

text \<open>Events of the desktop device without a URL, and the bucket rows of "firefox".\<close>

definition desktop_event :: "int \<Rightarrow> string \<Rightarrow> int \<Rightarrow> event" where
  "desktop_event t a d =
     \<lparr>e_timestamp = t, e_device_type = ''desktop'', e_app_name = a, e_website_url = None,
      e_duration_seconds = d\<rparr>"

definition firefox_hour :: "int \<Rightarrow> nat \<Rightarrow> int \<Rightarrow> int \<Rightarrow> hourly_row" where
  "firefox_hour d h secs n =
     \<lparr>h_date = d, h_hour = h, h_device_type = ''desktop'', h_app_name = ''firefox'',
      h_website_url = None, h_category = ''Other'', h_total_seconds = secs,
      h_event_count = n\<rparr>"

definition empty_database :: database where
  "empty_database =
     \<lparr>events = [], hourly_usage = [], daily_usage = [], daily_category_usage = [],
      app_categories = []\<rparr>"

text \<open>
  Day 19723 is 2024-01-01. Three events of ten seconds each, at 08:30:00.250000,
  08:59:59.500000 and 10:05:00.125000, and no bucket yet.
\<close>

definition three_events :: database where
  "three_events =
     empty_database\<lparr>events :=
       [desktop_event (instant 19723 8 30 0 250000) ''firefox'' 10,
        desktop_event (instant 19723 8 59 59 500000) ''firefox'' 10,
        desktop_event (instant 19723 10 5 0 125000) ''firefox'' 10]\<rparr>"

text \<open>The same three events with the buckets a first pass writes for them.\<close>

definition bucketed_events :: database where
  "bucketed_events =
     three_events\<lparr>hourly_usage := [firefox_hour 19723 8 20 2, firefox_hour 19723 10 10 1]\<rparr>"

text \<open>
  Two events, at 08:30:00.250000 and 10:05:00.125000, and an event that the collector
  saves later with the timestamp 08:59:59.500000.
\<close>

definition two_events :: database where
  "two_events =
     empty_database\<lparr>events :=
       [desktop_event (instant 19723 8 30 0 250000) ''firefox'' 10,
        desktop_event (instant 19723 10 5 0 125000) ''firefox'' 10]\<rparr>"

definition late_event :: event where
  "late_event = desktop_event (instant 19723 8 59 59 500000) ''firefox'' 10"

text \<open>Two events of the same hour, the second with a negative duration.\<close>

definition refund_events :: database where
  "refund_events =
     empty_database\<lparr>events :=
       [desktop_event (instant 19723 10 5 0 0) ''firefox'' 30,
        desktop_event (instant 19723 10 50 0 0) ''firefox'' (- 50)]\<rparr>"


text \<open>A cycle in which the first call of the hourly pass finds the database locked.\<close>

definition hourly_locked :: faults where
  "hourly_locked = no_faults\<lparr>hourly_fault := Some 0\<rparr>"

text \<open>The daily rows of "firefox" on the desktop.\<close>

definition firefox_day :: "int \<Rightarrow> int \<Rightarrow> int \<Rightarrow> daily_row" where
  "firefox_day d secs n =
     \<lparr>d_date = d, d_device_type = ''desktop'', d_app_name = ''firefox'',
      d_website_url = None, d_category = ''Other'', d_total_seconds = secs,
      d_event_count = n\<rparr>"

definition other_day :: "int \<Rightarrow> int \<Rightarrow> daily_category_row" where
  "other_day d secs =
     \<lparr>c_date = d, c_device_type = ''desktop'', c_category = ''Other'',
      c_total_seconds = secs\<rparr>"

text \<open>
  What \<open>load_categories\<close> leaves behind, described from the source file alone.

  \<open>categories_of\<close> is the value that \<open>self.categories = data.get('categories', {})\<close>
  assigns. There is none when the file is missing, cannot be read as JSON, or holds a
  JSON value that is not an object: the exception then comes before any assignment.
\<close>

fun categories_of :: "source \<Rightarrow> json option" where
  "categories_of (Content (JObj kvs)) =
     Some (case map_of kvs ''categories'' of Some v \<Rightarrow> v | None \<Rightarrow> JObj [])"
| "categories_of _ = None"

text \<open>
  The apps of an entry of \<open>categories\<close>, when the entry is an object and its \<open>apps\<close> can
  be iterated; the apps that are read before one that is not a string; and the entries
  that are read to their end.
\<close>

definition entry_apps :: "json \<Rightarrow> json list option" where
  "entry_apps info =
     (case py_get info ''apps'' (JArr []) of
        Inl e \<Rightarrow> None
      | Inr apps \<Rightarrow> (case py_iter apps of Inl e \<Rightarrow> None | Inr as \<Rightarrow> Some as))"

fun is_str :: "json \<Rightarrow> bool" where
  "is_str (JStr s) = True"
| "is_str _ = False"

fun the_str :: "json \<Rightarrow> string" where
  "the_str (JStr s) = s"
| "the_str _ = []"

definition readable_apps :: "json \<Rightarrow> json list" where
  "readable_apps info =
     (case entry_apps info of None \<Rightarrow> [] | Some as \<Rightarrow> takeWhile is_str as)"

definition well_formed_entry :: "string \<times> json \<Rightarrow> bool" where
  "well_formed_entry entry =
     (case entry_apps (snd entry) of None \<Rightarrow> False | Some as \<Rightarrow> list_all is_str as)"

text \<open>
  The assignments \<open>self.app_mappings[app.lower()] = category\<close> in the order in which they
  are made: those of the well-formed entries before the first malformed one, then those
  of that entry up to its first app that is not a string. The mappings are what these
  assignments make of the empty dict.
\<close>

definition entry_assignments :: "str_lower \<Rightarrow> string \<times> json \<Rightarrow> (string \<times> string) list" where
  "entry_assignments lower entry =
     map (\<lambda>app. (lower (the_str app), fst entry)) (readable_apps (snd entry))"

definition assignments :: "str_lower \<Rightarrow> (string \<times> json) list \<Rightarrow> (string \<times> string) list" where
  "assignments lower items =
     concat (map (entry_assignments lower)
       (takeWhile well_formed_entry items @ take 1 (dropWhile well_formed_entry items)))"

definition assign :: "string \<times> string \<Rightarrow> (string \<times> string) list \<Rightarrow> (string \<times> string) list" where
  "assign ac m = dict_set m (fst ac) (snd ac)"

definition mappings_from :: "str_lower \<Rightarrow> json \<Rightarrow> (string \<times> string) list" where
  "mappings_from lower cats =
     (case cats of
        JObj items \<Rightarrow> fold assign (assignments lower items) []
      | _ \<Rightarrow> [])"

text \<open>
  Three rule files: \<open>{"categories": null}\<close>, a file whose first entry has the number 5
  among its apps, and a file without the key \<open>categories\<close>.
\<close>

definition null_categories :: source where
  "null_categories = Content (JObj [(''categories'', JNull)])"

definition broken_entry :: source where
  "broken_entry =
     Content (JObj [(''categories'',
       JObj [(''Work'', JObj [(''apps'', JArr [JStr ''Code'', JNum 5, JStr ''vim''])]),
             (''Browsers'', JObj [(''apps'', JArr [JStr ''firefox''])])])])"

text \<open>The map a loading loop ends with, whether it returns or raises.\<close>

definition map_left :: "(py_error \<times> (string \<times> string) list) + (string \<times> string) list
    \<Rightarrow> (string \<times> string) list" where
  "map_left r = (case r of Inl em \<Rightarrow> snd em | Inr m \<Rightarrow> m)"

text \<open>
  The totals of a date in the two daily tables: the sum of \<open>total_seconds\<close> over the
  category rows of the date, and over the usage rows of the date.
\<close>

definition category_total :: "database \<Rightarrow> int \<Rightarrow> int" where
  "category_total db d =
     sum_list (map c_total_seconds (filter (\<lambda>r. c_date r = d) (daily_category_usage db)))"

definition usage_total :: "database \<Rightarrow> int \<Rightarrow> int" where
  "usage_total db d =
     sum_list (map d_total_seconds (filter (\<lambda>r. d_date r = d) (daily_usage db)))"

text \<open>
  The daily tables agree: on every date the two totals are equal, and every usage row
  has a category row of its date, device and category.
\<close>

definition daily_tables_agree :: "database \<Rightarrow> bool" where
  "daily_tables_agree db =
     ((\<forall>d. category_total db d = usage_total db d) \<and>
      (\<forall>r \<in> set (daily_usage db). \<exists>e \<in> set (daily_category_usage db).
         category_row_key e = daily_category_key r))"

text \<open>
  The databases the system produces: it starts from empty tables, the collector saves
  events, and the processor runs its three database functions, with any rules in effect
  and with or without storage errors.
\<close>

inductive reachable :: "database \<Rightarrow> bool" where
  initial: "reachable empty_database"
| saved: "reachable db \<Longrightarrow> reachable (save_event e db)"
| app_categories_updated:
    "reachable db \<Longrightarrow> reachable (fst (update_app_categories_table f cm db))"
| hourly_processed:
    "reachable db \<Longrightarrow> reachable (fst (process_hourly_aggregations lower f cm db))"
| daily_processed:
    "reachable db \<Longrightarrow> reachable (fst (process_daily_aggregations f db))"

section \<open>Properties of the category manager\<close>

lemma starts_with_prefix: "starts_with s p \<longleftrightarrow> prefix p s"
  by (induction s p rule: starts_with.induct) auto

lemma contains_sublist: "contains s p \<longleftrightarrow> sublist p s"
  by (induction s) (auto simp: starts_with_prefix sublist_Cons_right)

lemma partial_match_find:
  "partial_match m s =
     (case find (\<lambda>pc. sublist (fst pc) s) m of Some pc \<Rightarrow> snd pc | None \<Rightarrow> ''Other'')"
  by (induction m s rule: partial_match.induct) (auto simp: contains_sublist)

lemma example_rules_loaded:
  "new_manager ascii_lower example_rules =
     (\<lparr>categories = JObj [(''Work'', JObj [(''apps'', JArr [JStr ''code''])]),
             (''Browsers'', JObj [(''apps'', JArr [JStr ''codefire''])])],
       app_mappings = [(''code'', ''Work''), (''codefire'', ''Browsers'')]\<rparr>,
      [CategoriesLoaded 2 2])"
  by (simp add: new_manager_def example_rules_def load_categories_def empty_manager_def
      ascii_lower_def ascii_lower_char_def)

lemma ascii_lower_CodeFire: "ascii_lower ''CodeFire'' = ''codefire''"
  by (simp add: ascii_lower_def ascii_lower_char_def)

text \<open>
  C3. For every app name and every loaded rule set, \<open>get_category\<close> resolves in the order
  of the specification: the empty name gives "Other"; otherwise an exact match of the
  lowercased name in the flattened map gives its category; otherwise the first pattern,
  in the map's iteration order, that is a substring of the lowercased name gives its
  category; otherwise "Other". This holds whatever function \<open>str.lower()\<close> is.
\<close>

theorem get_category_resolution_order:
  "get_category lower cm app_name = classify_spec lower (app_mappings cm) app_name"
proof (cases "map_of (app_mappings cm) (lower app_name)")
  case None
  then have "lower app_name \<notin> fst ` set (app_mappings cm)"
    by (simp add: map_of_eq_None_iff)
  with None show ?thesis
    by (simp add: get_category_def classify_spec_def partial_match_find Let_def)
next
  case (Some c)
  then have "lower app_name \<in> fst ` set (app_mappings cm)"
    by (metis map_of_eq_None_iff option.distinct(1))
  with Some show ?thesis
    by (simp add: get_category_def classify_spec_def Let_def)
qed

theorem get_category_resolution_order_witness:
  "get_category ascii_lower (fst (new_manager ascii_lower example_rules)) ''MyCode'' = ''Work'' \<and>
   classify_spec ascii_lower (app_mappings (fst (new_manager ascii_lower example_rules))) ''MyCode'' = ''Work''"
  using get_category_resolution_order [of ascii_lower "fst (new_manager ascii_lower example_rules)" "''MyCode''"]
  by (simp add: example_rules_loaded get_category_def ascii_lower_def ascii_lower_char_def)

text \<open>
  C4, as the code behaves. With the rules \<open>{"Work": ["code"], "Browsers": ["codefire"]}\<close>
  loaded, \<open>get_category\<close> of "CodeFire" is "Browsers": the lowercased name is itself
  a key of the flattened map, and the exact match is tried before any substring.
\<close>

theorem get_category_CodeFire_Browsers:
  "get_category ascii_lower (fst (new_manager ascii_lower example_rules)) ''CodeFire'' = ''Browsers''"
  by (simp add: example_rules_loaded get_category_def ascii_lower_CodeFire)

text \<open>C4, as stated: the result is not "Work".\<close>

theorem get_category_CodeFire_not_Work:
  "get_category ascii_lower (fst (new_manager ascii_lower example_rules)) ''CodeFire'' \<noteq> ''Work''"
  by (simp add: example_rules_loaded get_category_def ascii_lower_CodeFire)

section \<open>Transactions\<close>

lemma keeps_committed_execute: "keeps_committed (execute stmt)"
  by (auto simp: keeps_committed_def execute_def split: sum.splits)

lemma keeps_committed_and_then:
  assumes "keeps_committed m" and "\<And>x. keeps_committed (k x)"
  shows "keeps_committed (\<lambda>c. and_then (m c) k)"
  unfolding keeps_committed_def
proof
  fix c
  show "case and_then (m c) k of Inl (e, c') \<Rightarrow> committed c' = committed c
          | Inr (x, c') \<Rightarrow> committed c' = committed c"
  proof (cases "m c")
    case (Inl ec)
    with assms(1) show ?thesis
      by (auto simp: keeps_committed_def and_then_def split: sum.splits prod.splits)
  next
    case (Inr xc)
    obtain x c1 where xc: "xc = (x, c1)" by (cases xc)
    from assms(1) Inr xc have c1: "committed c1 = committed c"
      by (auto simp: keeps_committed_def split: sum.splits prod.splits)
    from assms(2) [of x] have
      "case k x c1 of Inl (e, c') \<Rightarrow> committed c' = committed c1
         | Inr (y, c') \<Rightarrow> committed c' = committed c1"
      by (simp add: keeps_committed_def)
    with Inr xc c1 show ?thesis
      by (auto simp: and_then_def split: sum.splits prod.splits)
  qed
qed

lemma keeps_committed_for_each:
  assumes "\<And>x. keeps_committed (body x)"
  shows "keeps_committed (for_each body xs)"
  unfolding keeps_committed_def
proof (induction xs)
  case Nil
  show ?case by simp
next
  case (Cons x xs)
  show ?case
  proof
    fix c
    show "case for_each body (x # xs) c of Inl (e, c') \<Rightarrow> committed c' = committed c
            | Inr (u, c') \<Rightarrow> committed c' = committed c"
    proof (cases "body x c")
      case (Inl ec)
      with assms [of x] show ?thesis
        by (auto simp: keeps_committed_def split: sum.splits prod.splits)
    next
      case (Inr uc)
      obtain u c1 where uc: "uc = (u, c1)" by (cases uc)
      from assms [of x] Inr uc have c1: "committed c1 = committed c"
        by (auto simp: keeps_committed_def split: sum.splits prod.splits)
      from Cons.IH have
        "case for_each body xs c1 of Inl (e, c') \<Rightarrow> committed c' = committed c1
           | Inr (u, c') \<Rightarrow> committed c' = committed c1"
        by blast
      with Inr uc c1 show ?thesis
        by (auto split: sum.splits prod.splits)
    qed
  qed
qed

lemma fails_clean_and_then:
  assumes "keeps_committed m" and "\<And>x. fails_clean (k x)"
  shows "fails_clean (\<lambda>c. and_then (m c) k)"
  unfolding fails_clean_def
proof
  fix c
  show "case and_then (m c) k of Inl (e, c') \<Rightarrow> committed c' = committed c
          | Inr (x, c') \<Rightarrow> True"
  proof (cases "m c")
    case (Inl ec)
    with assms(1) show ?thesis
      by (auto simp: keeps_committed_def and_then_def split: sum.splits prod.splits)
  next
    case (Inr xc)
    obtain x c1 where xc: "xc = (x, c1)" by (cases xc)
    from assms(1) Inr xc have c1: "committed c1 = committed c"
      by (auto simp: keeps_committed_def split: sum.splits prod.splits)
    from assms(2) [of x] have
      "case k x c1 of Inl (e, c') \<Rightarrow> committed c' = committed c1 | Inr (y, c') \<Rightarrow> True"
      by (simp add: fails_clean_def)
    with Inr xc c1 show ?thesis
      by (auto simp: and_then_def split: sum.splits prod.splits)
  qed
qed

lemma fails_clean_commit: "fails_clean (\<lambda>c. and_then (commit c) (\<lambda>u c'. Inr (v, c')))"
  by (auto simp: fails_clean_def and_then_def commit_def split: sum.splits)

lemma fails_clean_if:
  "fails_clean m \<Longrightarrow> fails_clean n \<Longrightarrow> fails_clean (\<lambda>c. if b then m c else n c)"
  by (simp add: fails_clean_def)

lemma fails_clean_return: "fails_clean (\<lambda>c. Inr (v, c))"
  by (simp add: fails_clean_def)

lemma fails_clean_hourly_body: "fails_clean (hourly_body lower cm)"
  unfolding hourly_body_def [abs_def] Let_def
  by (intro fails_clean_and_then fails_clean_if fails_clean_return fails_clean_commit
      keeps_committed_execute keeps_committed_for_each)

lemma fails_clean_daily_body: "fails_clean daily_body"
  unfolding daily_body_def [abs_def] Let_def
  by (intro fails_clean_and_then fails_clean_if fails_clean_return fails_clean_commit
      keeps_committed_execute keeps_committed_for_each keeps_committed_and_then)

lemma fails_clean_app_categories_body: "fails_clean (app_categories_body cm)"
  unfolding app_categories_body_def [abs_def]
  by (intro fails_clean_and_then fails_clean_if fails_clean_return fails_clean_commit
      keeps_committed_execute keeps_committed_for_each keeps_committed_and_then)

section \<open>What a completed hourly pass writes\<close>

lemma execute_Inr:
  "execute stmt c = Inr (x, c') \<Longrightarrow>
     stmt (working c) = Inr (x, working c') \<and> committed c' = committed c"
  by (auto simp: execute_def split: if_splits sum.splits)

lemma commit_Inr: "commit c = Inr (u, c') \<Longrightarrow> committed c' = working c"
  by (auto simp: commit_def split: if_splits)

lemma and_then_Inr:
  "and_then r k = Inr yc \<longleftrightarrow> (\<exists>x c. r = Inr (x, c) \<and> k x c = Inr yc)"
  by (auto simp: and_then_def split: sum.splits)

lemma for_each_working:
  assumes "\<And>x c u c'. body x c = Inr (u, c') \<Longrightarrow> working c' = g x (working c)"
  shows "for_each body xs c = Inr (u, c') \<Longrightarrow> working c' = fold g xs (working c)"
proof (induction xs arbitrary: c)
  case Nil
  then show ?case by simp
next
  case (Cons x xs)
  from Cons.prems obtain u1 c1 where
    b: "body x c = Inr (u1, c1)" and r: "for_each body xs c1 = Inr (u, c')"
    by (auto split: sum.splits)
  from assms [OF b] Cons.IH [OF r] show ?case by simp
qed

lemma fold_delete_hourly:
  "fold (\<lambda>slot db. db\<lparr>hourly_usage := filter (\<lambda>r. (h_date r, h_hour r) \<noteq> slot) (hourly_usage db)\<rparr>)
     slots db =
   db\<lparr>hourly_usage := filter (\<lambda>r. (h_date r, h_hour r) \<notin> set slots) (hourly_usage db)\<rparr>"
proof (induction slots arbitrary: db)
  case Nil
  show ?case by simp
next
  case (Cons s slots)
  have "filter (\<lambda>r. (h_date r, h_hour r) \<notin> set slots)
          (filter (\<lambda>r. (h_date r, h_hour r) \<noteq> s) (hourly_usage db)) =
        filter (\<lambda>r. (h_date r, h_hour r) \<notin> set (s # slots)) (hourly_usage db)"
    by (induction "hourly_usage db") auto
  with Cons.IH show ?case by simp
qed

lemma fold_insert_hourly:
  "fold (\<lambda>r db. db\<lparr>hourly_usage := hourly_usage db @ [row r]\<rparr>) rs db =
   db\<lparr>hourly_usage := hourly_usage db @ map row rs\<rparr>"
  by (induction rs arbitrary: db) simp_all

lemma delete_loop_working:
  assumes "for_each (\<lambda>slot. execute (delete_hourly slot)) slots c = Inr (u, c')"
  shows "working c' =
     (working c)\<lparr>hourly_usage :=
        filter (\<lambda>r. (h_date r, h_hour r) \<notin> set slots) (hourly_usage (working c))\<rparr>"
proof -
  have "working c' =
     fold (\<lambda>slot db. db\<lparr>hourly_usage := filter (\<lambda>r. (h_date r, h_hour r) \<noteq> slot) (hourly_usage db)\<rparr>)
       slots (working c)"
    by (rule for_each_working [OF _ assms])
       (auto dest!: execute_Inr simp: delete_hourly_def)
  then show ?thesis by (simp add: fold_delete_hourly)
qed

lemma insert_loop_working:
  assumes "for_each (\<lambda>row. execute (insert_hourly (hourly_row_of lower cm row))) rows c = Inr (u, c')"
  shows "working c' =
     (working c)\<lparr>hourly_usage := hourly_usage (working c) @ map (hourly_row_of lower cm) rows\<rparr>"
proof -
  have "working c' =
     fold (\<lambda>r db. db\<lparr>hourly_usage := hourly_usage db @ [hourly_row_of lower cm r]\<rparr>) rows (working c)"
    by (rule for_each_working [OF _ assms])
       (auto dest!: execute_Inr simp: insert_hourly_def split: if_splits)
  then show ?thesis by (simp add: fold_insert_hourly)
qed

text \<open>What a pass that reports rows has written.\<close>

lemma hourly_body_processed:
  assumes "hourly_body lower cm c = Inr (HourlyProcessed n m, c')"
  shows "committed c' =
     (working c)\<lparr>hourly_usage :=
        filter (\<lambda>r. (h_date r, h_hour r) \<notin>
                  hour_slot ` set (hourly_groups (hourly_window_start (working c)) (events (working c))))
          (hourly_usage (working c)) @
        map (hourly_row_of lower cm)
          (hourly_groups (hourly_window_start (working c)) (events (working c)))\<rparr>"
proof -
  define start where "start = hourly_window_start (working c)"
  define data where "data = hourly_groups start (events (working c))"
  from assms obtain r c1 hd c2 where
    s1: "execute select_last_processed_ts c = Inr (r, c1)" and
    s2: "execute (select_hourly_data
           ((case r of Some t \<Rightarrow> t | None \<Rightarrow> instant 0 0 0 0 0) - 2 * us_per_hour)) c1 = Inr (hd, c2)" and
    rest: "(if hd = [] then Inr (HourlyNoData, c2)
            else and_then (for_each (\<lambda>slot. execute (delete_hourly slot)) (remdups (map hour_slot hd)) c2)
                   (\<lambda>_ c3. and_then (for_each (\<lambda>row. execute (insert_hourly (hourly_row_of lower cm row))) hd c3)
                   (\<lambda>_ c4. and_then (commit c4)
                   (\<lambda>_ c5. Inr (HourlyProcessed (length hd) (length (remdups (map hour_slot hd))), c5)))))
           = Inr (HourlyProcessed n m, c')"
    unfolding hourly_body_def Let_def and_then_Inr by blast
  from execute_Inr [OF s1] have r: "r = sql_max (map hour_end (hourly_usage (working c)))"
    and w1: "working c1 = working c"
    by (auto simp: select_last_processed_ts_def)
  from execute_Inr [OF s2] w1 r have hd: "hd = data" and w2: "working c2 = working c"
    by (auto simp: select_hourly_data_def data_def start_def hourly_window_start_def)
  from rest have ne: "hd \<noteq> []" by (auto split: if_splits)
  with rest obtain u3 c3 u4 c4 u5 where
    d: "for_each (\<lambda>slot. execute (delete_hourly slot)) (remdups (map hour_slot hd)) c2 = Inr (u3, c3)" and
    i: "for_each (\<lambda>row. execute (insert_hourly (hourly_row_of lower cm row))) hd c3 = Inr (u4, c4)" and
    k: "commit c4 = Inr (u5, c')"
    by (auto simp: and_then_Inr)
  from delete_loop_working [OF d] insert_loop_working [OF i] commit_Inr [OF k] w2 hd
  show ?thesis by (simp add: data_def start_def)
qed

section \<open>A pass that fails\<close>

lemma process_hourly_error:
  assumes "snd (process_hourly_aggregations lower f cm db) = [HourlyError e]"
  shows "fst (process_hourly_aggregations lower f cm db) = db"
proof (cases "hourly_body lower cm (connect db f)")
  case (Inl ec)
  obtain e' c where ec: "ec = (e', c)" by (cases ec)
  from fails_clean_hourly_body [of lower cm] Inl ec have "committed c = committed (connect db f)"
    by (auto simp: fails_clean_def split: sum.splits prod.splits)
  with Inl ec show ?thesis
    by (simp add: process_hourly_aggregations_def connect_def)
next
  case (Inr lc)
  obtain line c where lc: "lc = (line, c)" by (cases lc)
  have "line \<noteq> HourlyError e"
    using Inr lc unfolding hourly_body_def Let_def and_then_def
    by (auto split: sum.splits prod.splits if_splits)
  with assms Inr lc show ?thesis
    by (simp add: process_hourly_aggregations_def)
qed

text \<open>
  C9. The deletes and inserts of an hourly pass reach the database only through the
  commit at its end: when the pass fails, at whichever call, before or in the commit, the
  database is exactly what it was before the pass, and so is every hourly bucket.
\<close>

theorem hourly_failure_rolls_back:
  assumes "snd (process_hourly_aggregations lower f cm db) = [HourlyError e]"
  shows "fst (process_hourly_aggregations lower f cm db) = db"
  using assms by (rule process_hourly_error)

text \<open>
  The pass over \<open>bucketed_events\<close> fails at its fifth call, the first \<open>INSERT\<close>, after
  both \<open>DELETE\<close>s have run.
\<close>

theorem hourly_failure_rolls_back_witness:
  "snd (process_hourly_aggregations ascii_lower (Some 4) empty_manager bucketed_events) =
     [HourlyError OperationalError] \<and>
   fst (process_hourly_aggregations ascii_lower (Some 4) empty_manager bucketed_events) = bucketed_events"
proof -
  have h: "snd (process_hourly_aggregations ascii_lower (Some 4) empty_manager bucketed_events) =
     [HourlyError OperationalError]"
    by code_simp
  from h hourly_failure_rolls_back [OF h] show ?thesis by simp
qed

section \<open>A pass that completes\<close>

lemma group_by_member:
  "x \<in> set xs \<Longrightarrow> (key x, filter (\<lambda>y. key y = key x) xs) \<in> set (group_by key xs)"
  by (auto simp: group_by_def)

lemma hourly_groups_member:
  assumes "e \<in> set es" and "e_timestamp e > start"
  shows "(event_key e,
          int (length (filter (\<lambda>x. event_key x = event_key e) (filter (\<lambda>x. e_timestamp x > start) es))),
          sum_list (map e_duration_seconds
            (filter (\<lambda>x. event_key x = event_key e) (filter (\<lambda>x. e_timestamp x > start) es))))
         \<in> set (hourly_groups start es)"
proof -
  from assms have "e \<in> set (filter (\<lambda>x. e_timestamp x > start) es)" by simp
  from group_by_member [OF this, of event_key] show ?thesis
    unfolding hourly_groups_def by (force simp: image_iff)
qed

lemma process_hourly_processed:
  assumes "snd (process_hourly_aggregations lower f cm db) = [HourlyProcessed n m]"
  shows "fst (process_hourly_aggregations lower f cm db) =
     db\<lparr>hourly_usage :=
        filter (\<lambda>r. (h_date r, h_hour r) \<notin>
                  hour_slot ` set (hourly_groups (hourly_window_start db) (events db)))
          (hourly_usage db) @
        map (hourly_row_of lower cm) (hourly_groups (hourly_window_start db) (events db))\<rparr>"
proof (cases "hourly_body lower cm (connect db f)")
  case (Inl ec)
  with assms show ?thesis
    by (cases ec) (simp add: process_hourly_aggregations_def)
next
  case (Inr lc)
  obtain line c where lc: "lc = (line, c)" by (cases lc)
  with assms Inr have "line = HourlyProcessed n m"
    by (simp add: process_hourly_aggregations_def)
  with Inr lc have "hourly_body lower cm (connect db f) = Inr (HourlyProcessed n m, c)" by simp
  from hourly_body_processed [OF this] Inr lc show ?thesis
    by (simp add: process_hourly_aggregations_def connect_def)
qed

text \<open>
  C8, as the code behaves. The hourly pass checks no row. When a pass completes, every
  event of its window, whatever its duration, negative ones included, is among the
  events of its bucket: the bucket row of the event's key is in the table, its
  \<open>event_count\<close> is the number of window events with that key and its \<open>total_seconds\<close>
  is the sum of their durations. The log of the pass is its one summary line.
\<close>

theorem window_events_are_aggregated_unvalidated:
  assumes "snd (process_hourly_aggregations lower f cm db) = [HourlyProcessed n m]"
      and "e \<in> set (events db)"
      and "e_timestamp e > hourly_window_start db"
  shows "e \<in> set (same_key e (window_events db)) \<and>
         \<lparr>h_date = event_date e, h_hour = event_hour e, h_device_type = e_device_type e,
          h_app_name = e_app_name e, h_website_url = e_website_url e,
          h_category = get_category lower cm (e_app_name e),
          h_total_seconds = sum_list (map e_duration_seconds (same_key e (window_events db))),
          h_event_count = int (length (same_key e (window_events db)))\<rparr>
         \<in> set (hourly_usage (fst (process_hourly_aggregations lower f cm db)))"
proof -
  let ?g = "(event_key e, int (length (same_key e (window_events db))),
             sum_list (map e_duration_seconds (same_key e (window_events db))))"
  from hourly_groups_member [OF assms(2,3)]
  have "?g \<in> set (hourly_groups (hourly_window_start db) (events db))"
    by (simp add: same_key_def window_events_def)
  then have "hourly_row_of lower cm ?g \<in> set (hourly_usage (fst (process_hourly_aggregations lower f cm db)))"
    by (simp add: process_hourly_processed [OF assms(1)])
  moreover have "e \<in> set (same_key e (window_events db))"
    using assms(2,3) by (simp add: same_key_def window_events_def)
  ultimately show ?thesis
    by (simp add: hourly_row_of_def event_key_def)
qed

theorem window_events_are_aggregated_unvalidated_witness:
  "snd (process_hourly_aggregations ascii_lower None empty_manager refund_events) = [HourlyProcessed 1 1] \<and>
   desktop_event (instant 19723 10 50 0 0) ''firefox'' (- 50) \<in> set (events refund_events) \<and>
   e_timestamp (desktop_event (instant 19723 10 50 0 0) ''firefox'' (- 50)) >
     hourly_window_start refund_events \<and>
   firefox_hour 19723 10 (- 20) 2 \<in>
     set (hourly_usage (fst (process_hourly_aggregations ascii_lower None empty_manager refund_events)))"
proof -
  let ?e = "desktop_event (instant 19723 10 50 0 0) ''firefox'' (- 50)"
  have h1: "snd (process_hourly_aggregations ascii_lower None empty_manager refund_events) =
     [HourlyProcessed 1 1]"
    by code_simp
  have h2: "?e \<in> set (events refund_events)"
    by (simp add: refund_events_def)
  have h3: "e_timestamp ?e > hourly_window_start refund_events"
    by code_simp
  have row: "\<lparr>h_date = event_date ?e, h_hour = event_hour ?e, h_device_type = e_device_type ?e,
          h_app_name = e_app_name ?e, h_website_url = e_website_url ?e,
          h_category = get_category ascii_lower empty_manager (e_app_name ?e),
          h_total_seconds = sum_list (map e_duration_seconds (same_key ?e (window_events refund_events))),
          h_event_count = int (length (same_key ?e (window_events refund_events)))\<rparr> =
        firefox_hour 19723 10 (- 20) 2"
    by code_simp
  from window_events_are_aggregated_unvalidated [OF h1 h2 h3] row h1 h2 h3
  show ?thesis by simp
qed

text \<open>
  C8, as stated: an event of minus fifty seconds in the window is not rejected. The one
  bucket of its hour counts two events and totals minus twenty seconds, and the log has
  the summary line only.
\<close>

theorem negative_duration_is_aggregated:
  "process_hourly_aggregations ascii_lower None empty_manager refund_events =
     (refund_events\<lparr>hourly_usage := [firefox_hour 19723 10 (- 20) 2]\<rparr>, [HourlyProcessed 1 1])"
  by code_simp

section \<open>The hour at the start of the window\<close>

text \<open>
  The window of a pass starts at the second \<open>HH:59:59\<close>, two hours before the last second
  of the latest bucket, and the events are compared with it by \<open>>\<close>. An event of that
  same second with a fraction, such as \<open>08:59:59.500000\<close>, is in the window while the
  rest of its hour is not; the pass then deletes the buckets of that hour and writes them
  again from that event alone.
\<close>

text \<open>
  C1, on \<open>three_events\<close>. The first pass writes the bucket of hour 8 with two events and
  twenty seconds. The second pass, with no event added and the same rules, replaces it
  by a bucket with one event and ten seconds.
\<close>

theorem second_pass_rewrites_boundary_hour:
  "hourly_usage (fst (process_hourly_aggregations ascii_lower None empty_manager three_events)) =
     [firefox_hour 19723 8 20 2, firefox_hour 19723 10 10 1] \<and>
   hourly_usage (fst (process_hourly_aggregations ascii_lower None empty_manager
      (fst (process_hourly_aggregations ascii_lower None empty_manager three_events)))) =
     [firefox_hour 19723 8 10 1, firefox_hour 19723 10 10 1]"
  by code_simp

text \<open>
  C6, on \<open>two_events\<close>. After a first pass the bucket of hour 8 has one event and ten
  seconds. \<open>late_event\<close> lies inside the window of the next pass and belongs to hour 8.
  After it is saved and the pass has run again, the bucket of hour 8 still has one event
  and ten seconds, not two events and twenty seconds.
\<close>

theorem late_event_in_boundary_hour_replaces_bucket:
  "hourly_usage (fst (process_hourly_aggregations ascii_lower None empty_manager two_events)) =
     [firefox_hour 19723 8 10 1, firefox_hour 19723 10 10 1] \<and>
   e_timestamp late_event >
     hourly_window_start (fst (process_hourly_aggregations ascii_lower None empty_manager two_events)) \<and>
   hourly_usage (fst (process_hourly_aggregations ascii_lower None empty_manager
      (save_event late_event (fst (process_hourly_aggregations ascii_lower None empty_manager two_events))))) =
     [firefox_hour 19723 8 10 1, firefox_hour 19723 10 10 1]"
  by code_simp

section \<open>The app_categories table\<close>

lemma for_each_insert_app_working:
  assumes "for_each (\<lambda>mapping. execute (insert_app_category (app_category_row_of mapping))) ms c
             = Inr (u, c')"
  shows "working c' =
     (working c)\<lparr>app_categories := app_categories (working c) @ map app_category_row_of ms\<rparr>"
proof -
  have "working c' =
     fold (\<lambda>r db. db\<lparr>app_categories := app_categories db @ [app_category_row_of r]\<rparr>) ms (working c)"
    by (rule for_each_working [OF _ assms])
       (auto dest!: execute_Inr simp: insert_app_category_def split: if_splits)
  moreover have "\<And>db. fold (\<lambda>r db. db\<lparr>app_categories := app_categories db @ [app_category_row_of r]\<rparr>) ms db =
     db\<lparr>app_categories := app_categories db @ map app_category_row_of ms\<rparr>"
    by (induction ms) simp_all
  ultimately show ?thesis by simp
qed

lemma app_categories_body_Inr:
  assumes "app_categories_body cm c = Inr (line, c')"
  shows "committed c' = (working c)\<lparr>app_categories := map app_category_row_of (app_mappings cm)\<rparr>"
proof -
  from assms obtain u1 c1 u2 c2 u3 where
    d: "execute delete_app_categories c = Inr (u1, c1)" and
    i: "for_each (\<lambda>mapping. execute (insert_app_category (app_category_row_of mapping)))
          (app_mappings cm) c1 = Inr (u2, c2)" and
    k: "commit c2 = Inr (u3, c')"
    unfolding app_categories_body_def by (auto simp: and_then_Inr)
  from execute_Inr [OF d] have "working c1 = (working c)\<lparr>app_categories := []\<rparr>"
    by (auto simp: delete_app_categories_def)
  with for_each_insert_app_working [OF i] commit_Inr [OF k] show ?thesis by simp
qed



section \<open>A cycle with a failing hourly stage\<close>

text \<open>
  C2, as the code behaves. Each stage catches and logs its own exceptions and
  \<open>process_all\<close> calls the stages one after the other without looking at their outcome.
  When the hourly stage fails, its error is logged, the database is left as the stage
  found it, and the daily stage runs in the same cycle, on that database: the daily
  tables after the cycle are what the daily pass computes from the hourly buckets as they
  were before the failure.
\<close>

theorem hourly_failure_does_not_stop_daily:
  assumes "load_categories lower src cm = (cm1, log1)"
      and "update_app_categories_table (app_categories_fault fs) cm1 db = (db1, log2)"
      and "snd (process_hourly_aggregations lower (hourly_fault fs) cm1 db1) = [HourlyError e]"
  shows "process_all lower fs src cm db =
     (cm1, fst (process_daily_aggregations (daily_fault fs) db1),
      [CycleStarted] @ log1 @ log2 @ [HourlyError e] @
      snd (process_daily_aggregations (daily_fault fs) db1) @ [CycleCompleted])"
proof -
  from process_hourly_error [OF assms(3)] assms(3)
  have "process_hourly_aggregations lower (hourly_fault fs) cm1 db1 = (db1, [HourlyError e])"
    by (simp add: prod_eq_iff)
  with assms(1,2) show ?thesis
    by (simp add: process_all_def split: prod.splits)
qed

theorem hourly_failure_does_not_stop_daily_witness:
  "load_categories ascii_lower Missing empty_manager = (empty_manager, [CategoriesFileNotFound]) \<and>
   update_app_categories_table (app_categories_fault hourly_locked) empty_manager bucketed_events =
     (bucketed_events, [AppCategoriesUpdated 0]) \<and>
   snd (process_hourly_aggregations ascii_lower (hourly_fault hourly_locked) empty_manager bucketed_events) =
     [HourlyError OperationalError] \<and>
   process_all ascii_lower hourly_locked Missing empty_manager bucketed_events =
     (empty_manager,
      fst (process_daily_aggregations (daily_fault hourly_locked) bucketed_events),
      [CycleStarted] @ [CategoriesFileNotFound] @ [AppCategoriesUpdated 0] @
      [HourlyError OperationalError] @
      snd (process_daily_aggregations (daily_fault hourly_locked) bucketed_events) @
      [CycleCompleted])"
proof -
  have h1: "load_categories ascii_lower Missing empty_manager = (empty_manager, [CategoriesFileNotFound])"
    by (simp add: load_categories_def)
  have h2: "update_app_categories_table (app_categories_fault hourly_locked) empty_manager
              bucketed_events = (bucketed_events, [AppCategoriesUpdated 0])"
    by code_simp
  have h3: "snd (process_hourly_aggregations ascii_lower (hourly_fault hourly_locked) empty_manager
              bucketed_events) = [HourlyError OperationalError]"
    by code_simp
  from hourly_failure_does_not_stop_daily [OF h1 h2 h3] h1 h2 h3 show ?thesis by simp
qed

text \<open>
  C2, as stated: in this cycle the hourly stage fails at its first call and the daily
  stage runs all the same. It writes a daily bucket and a category total, and logs its
  summary line after the error of the hourly stage.
\<close>

theorem daily_runs_after_hourly_failure:
  "process_all ascii_lower hourly_locked Missing empty_manager bucketed_events =
     (empty_manager,
      bucketed_events\<lparr>daily_usage := [firefox_day 19723 30 3],
                       daily_category_usage := [other_day 19723 30]\<rparr>,
      [CycleStarted, CategoriesFileNotFound, AppCategoriesUpdated 0,
       HourlyError OperationalError, DailyProcessed 1 1 1, CycleCompleted])"
  by code_simp

section \<open>A rule source that cannot be loaded\<close>

lemma load_apps_assignments:
  "map_left (load_apps lower c as m) =
     fold assign (map (\<lambda>app. (lower (the_str app), c)) (takeWhile is_str as)) m \<and>
   (isl (load_apps lower c as m) \<longleftrightarrow> \<not> list_all is_str as)"
proof (induction as arbitrary: m)
  case Nil
  show ?case by (simp add: map_left_def)
next
  case (Cons a as)
  show ?case
  proof (cases a)
    case (JStr s)
    with Cons.IH [of "dict_set m (lower s) c"] show ?thesis
      by (simp add: assign_def)
  qed (simp_all add: map_left_def)
qed

lemma load_items_assignments:
  "map_left (load_items lower items m) = fold assign (assignments lower items) m \<and>
   (isl (load_items lower items m) \<longleftrightarrow> \<not> list_all well_formed_entry items)"
proof (induction items arbitrary: m)
  case Nil
  show ?case by (simp add: map_left_def assignments_def)
next
  case (Cons entry items)
  obtain c info where entry: "entry = (c, info)" by (cases entry)
  show ?case
  proof (cases "entry_apps info")
    case None
    then have bad: "\<not> well_formed_entry entry"
      by (simp add: well_formed_entry_def entry)
    from None obtain e where "load_items lower (entry # items) m = Inl (e, m)"
      by (auto simp: entry entry_apps_def split: sum.splits)
    with bad None show ?thesis
      by (simp add: map_left_def assignments_def entry_assignments_def readable_apps_def entry)
  next
    case (Some as)
    then have step: "load_items lower (entry # items) m =
        (case load_apps lower c as m of Inl em \<Rightarrow> Inl em | Inr m' \<Rightarrow> load_items lower items m')"
      by (auto simp: entry entry_apps_def split: sum.splits)
    from load_apps_assignments [of lower c as m]
    have left: "map_left (load_apps lower c as m) =
         fold assign (map (\<lambda>app. (lower (the_str app), c)) (takeWhile is_str as)) m"
      and fails: "isl (load_apps lower c as m) \<longleftrightarrow> \<not> list_all is_str as"
      by simp_all
    show ?thesis
    proof (cases "list_all is_str as")
      case True
      with fails obtain m' where ok: "load_apps lower c as m = Inr m'"
        by (cases "load_apps lower c as m") auto
      with left have m': "m' = fold assign (entry_assignments lower entry) m"
        using Some by (simp add: map_left_def entry_assignments_def readable_apps_def entry)
      from True Some have wf: "well_formed_entry entry"
        by (simp add: well_formed_entry_def entry)
      from wf have "assignments lower (entry # items) =
          entry_assignments lower entry @ assignments lower items"
        by (simp add: assignments_def)
      with Cons.IH [of m'] step ok m' wf show ?thesis by simp
    next
      case False
      with fails obtain em where bad: "load_apps lower c as m = Inl em"
        by (cases "load_apps lower c as m") auto
      from False Some have nwf: "\<not> well_formed_entry entry"
        by (simp add: well_formed_entry_def entry)
      then have "assignments lower (entry # items) = entry_assignments lower entry"
        by (simp add: assignments_def)
      with left bad step nwf Some show ?thesis
        by (simp add: map_left_def entry_assignments_def readable_apps_def entry)
    qed
  qed
qed

lemma load_categories_mappings:
  assumes "categories_of src = Some cats"
  shows "fst (load_categories lower src cm) =
           \<lparr>categories = cats, app_mappings = mappings_from lower cats\<rparr>"
proof -
  from assms obtain kvs where src: "src = Content (JObj kvs)"
    and cats: "cats = (case map_of kvs ''categories'' of Some v \<Rightarrow> v | None \<Rightarrow> JObj [])"
    by (cases src rule: categories_of.cases) auto
  show ?thesis
  proof (cases cats)
    case (JObj items)
    from load_items_assignments [of lower items "[]"]
    have "map_left (load_items lower items []) = fold assign (assignments lower items) []"
      by simp
    with JObj cats src show ?thesis
      by (auto simp: load_categories_def mappings_from_def map_left_def split: sum.splits)
  qed (use cats src in \<open>auto simp: load_categories_def mappings_from_def\<close>)
qed

lemma no_mappings_Other:
  "app_mappings cm = [] \<Longrightarrow> get_category lower cm app_name = ''Other''"
  by (simp add: get_category_def Let_def)

text \<open>
  C7, as the code behaves. \<open>load_categories\<close> never raises: it returns in every case.
  When the source is missing, cannot be read as JSON or is not a JSON object, the manager
  is left exactly as it was before the call, so the rules loaded earlier stay in effect.
  In every other case \<open>categories\<close> becomes the value of the key \<open>categories\<close> of the
  source (the empty object if the key is absent) and the earlier mappings are gone: the
  mappings are empty if that value is not an object, and otherwise they are the ones
  assigned from its entries, in order, up to the first malformed entry or app. Whenever
  no mapping is in effect after the call, \<open>get_category\<close> returns "Other" for every
  app name.
\<close>

theorem load_categories_outcome:
  "(categories_of src = None \<longrightarrow> fst (load_categories lower src cm) = cm) \<and>
   (\<forall>cats. categories_of src = Some cats \<longrightarrow>
      fst (load_categories lower src cm) =
        \<lparr>categories = cats, app_mappings = mappings_from lower cats\<rparr>) \<and>
   (app_mappings (fst (load_categories lower src cm)) = [] \<longrightarrow>
      get_category lower (fst (load_categories lower src cm)) app_name = ''Other'')"
proof (intro conjI allI impI)
  assume "categories_of src = None"
  then show "fst (load_categories lower src cm) = cm"
    by (cases src rule: categories_of.cases) (simp_all add: load_categories_def)
next
  fix cats assume "categories_of src = Some cats"
  then show "fst (load_categories lower src cm) =
        \<lparr>categories = cats, app_mappings = mappings_from lower cats\<rparr>"
    by (rule load_categories_mappings)
next
  assume "app_mappings (fst (load_categories lower src cm)) = []"
  then show "get_category lower (fst (load_categories lower src cm)) app_name = ''Other''"
    by (rule no_mappings_Other)
qed

text \<open>
  With the rules of \<open>example_rules\<close> loaded before: a missing file keeps them, and "code"
  is still "Work"; \<open>{"categories": null}\<close> empties the mappings, and "code" is "Other";
  the file with the broken entry leaves the one mapping assigned before the number 5.
\<close>

theorem load_categories_outcome_witness:
  "categories_of Missing = None \<and>
   fst (load_categories ascii_lower Missing (fst (new_manager ascii_lower example_rules))) =
     fst (new_manager ascii_lower example_rules) \<and>
   categories_of null_categories = Some JNull \<and>
   fst (load_categories ascii_lower null_categories (fst (new_manager ascii_lower example_rules))) =
     \<lparr>categories = JNull, app_mappings = []\<rparr> \<and>
   get_category ascii_lower
     (fst (load_categories ascii_lower null_categories (fst (new_manager ascii_lower example_rules))))
     ''code'' = ''Other'' \<and>
   app_mappings
     (fst (load_categories ascii_lower broken_entry (fst (new_manager ascii_lower example_rules)))) =
     [(''code'', ''Work'')]"
proof -
  let ?cm = "fst (new_manager ascii_lower example_rules)"
  let ?broken = "JObj [(''Work'', JObj [(''apps'', JArr [JStr ''Code'', JNum 5, JStr ''vim''])]),
                       (''Browsers'', JObj [(''apps'', JArr [JStr ''firefox''])])]"
  have h1: "categories_of Missing = None" by simp
  have h2: "categories_of null_categories = Some JNull"
    by (simp add: null_categories_def)
  have h3: "categories_of broken_entry = Some ?broken"
    by (simp add: broken_entry_def)
  have m2: "mappings_from ascii_lower JNull = []"
    by (simp add: mappings_from_def)
  have m3: "mappings_from ascii_lower ?broken = [(''code'', ''Work'')]"
    by code_simp
  from load_categories_outcome [of Missing ascii_lower ?cm "''code''"] h1
  have r1: "fst (load_categories ascii_lower Missing ?cm) = ?cm" by blast
  note t2 = load_categories_outcome [of null_categories ascii_lower ?cm "''code''"]
  from t2 h2 m2
  have r2: "fst (load_categories ascii_lower null_categories ?cm) =
              \<lparr>categories = JNull, app_mappings = []\<rparr>"
    by simp
  then have e2: "app_mappings (fst (load_categories ascii_lower null_categories ?cm)) = []"
    by simp
  from t2 e2
  have o2: "get_category ascii_lower (fst (load_categories ascii_lower null_categories ?cm))
               ''code'' = ''Other''"
    by blast
  from load_categories_outcome [of broken_entry ascii_lower ?cm "''code''"] h3 m3
  have r3: "app_mappings (fst (load_categories ascii_lower broken_entry ?cm)) =
              [(''code'', ''Work'')]"
    by simp
  from h1 r1 h2 r2 o2 r3 show ?thesis by blast
qed

text \<open>
  C7, as stated: the rules of \<open>example_rules\<close> are loaded, then the file is gone at the
  next reload. The reload returns, and "code" is still classified as "Work", not as
  "Other".
\<close>

theorem missing_source_keeps_old_rules:
  "snd (load_categories ascii_lower Missing (fst (new_manager ascii_lower example_rules))) =
     [CategoriesFileNotFound] \<and>
   get_category ascii_lower
     (fst (load_categories ascii_lower Missing (fst (new_manager ascii_lower example_rules))))
     ''code'' \<noteq> ''Other''"
  by (simp add: example_rules_loaded load_categories_def get_category_def ascii_lower_def
      ascii_lower_char_def)

section \<open>What a completed daily pass writes\<close>

lemma fold_delete_daily:
  "fold (\<lambda>date db. db\<lparr>daily_usage := filter (\<lambda>r. d_date r \<noteq> date) (daily_usage db),
                      daily_category_usage :=
                        filter (\<lambda>r. c_date r \<noteq> date) (daily_category_usage db)\<rparr>) dates db =
   db\<lparr>daily_usage := filter (\<lambda>r. d_date r \<notin> set dates) (daily_usage db),
      daily_category_usage := filter (\<lambda>r. c_date r \<notin> set dates) (daily_category_usage db)\<rparr>"
proof (induction dates arbitrary: db)
  case Nil
  show ?case by simp
next
  case (Cons d dates)
  have a: "filter (\<lambda>r. d_date r \<notin> set dates) (filter (\<lambda>r. d_date r \<noteq> d) (daily_usage db)) =
        filter (\<lambda>r. d_date r \<notin> set (d # dates)) (daily_usage db)"
    by (induction "daily_usage db") auto
  have b: "filter (\<lambda>r. c_date r \<notin> set dates)
             (filter (\<lambda>r. c_date r \<noteq> d) (daily_category_usage db)) =
        filter (\<lambda>r. c_date r \<notin> set (d # dates)) (daily_category_usage db)"
    by (induction "daily_category_usage db") auto
  from Cons.IH a b show ?case by simp
qed

lemma delete_pair_working:
  assumes "and_then (execute (delete_daily d) c) (\<lambda>_. execute (delete_daily_category d)) = Inr (u, c')"
  shows "working c' =
     (working c)\<lparr>daily_usage := filter (\<lambda>r. d_date r \<noteq> d) (daily_usage (working c)),
       daily_category_usage :=
         filter (\<lambda>r. c_date r \<noteq> d) (daily_category_usage (working c))\<rparr>"
proof -
  from assms obtain u1 c1 where
    a: "execute (delete_daily d) c = Inr (u1, c1)" and
    b: "execute (delete_daily_category d) c1 = Inr (u, c')"
    by (auto simp: and_then_Inr)
  from execute_Inr [OF a]
  have w1: "working c1 = (working c)\<lparr>daily_usage := filter (\<lambda>r. d_date r \<noteq> d) (daily_usage (working c))\<rparr>"
    by (auto simp: delete_daily_def)
  from execute_Inr [OF b]
  have "working c' = (working c1)\<lparr>daily_category_usage :=
          filter (\<lambda>r. c_date r \<noteq> d) (daily_category_usage (working c1))\<rparr>"
    by (auto simp: delete_daily_category_def)
  with w1 show ?thesis by simp
qed

lemma daily_delete_loop_working:
  assumes "for_each (\<lambda>date c. and_then (execute (delete_daily date) c)
                                 (\<lambda>_. execute (delete_daily_category date))) dates c = Inr (u, c')"
  shows "working c' =
     (working c)\<lparr>daily_usage := filter (\<lambda>r. d_date r \<notin> set dates) (daily_usage (working c)),
       daily_category_usage :=
         filter (\<lambda>r. c_date r \<notin> set dates) (daily_category_usage (working c))\<rparr>"
proof -
  have "working c' =
     fold (\<lambda>date db. db\<lparr>daily_usage := filter (\<lambda>r. d_date r \<noteq> date) (daily_usage db),
                      daily_category_usage :=
                        filter (\<lambda>r. c_date r \<noteq> date) (daily_category_usage db)\<rparr>)
       dates (working c)"
    by (rule for_each_working [OF _ assms]) (rule delete_pair_working)
  then show ?thesis by (simp add: fold_delete_daily)
qed

lemma daily_insert_loop_working:
  assumes "for_each (\<lambda>row. execute (insert_daily (daily_row_of row))) rows c = Inr (u, c')"
  shows "working c' =
     (working c)\<lparr>daily_usage := daily_usage (working c) @ map daily_row_of rows\<rparr>"
proof -
  have "working c' =
     fold (\<lambda>r db. db\<lparr>daily_usage := daily_usage db @ [daily_row_of r]\<rparr>) rows (working c)"
    by (rule for_each_working [OF _ assms])
       (auto dest!: execute_Inr simp: insert_daily_def split: if_splits)
  moreover have "\<And>db. fold (\<lambda>r db. db\<lparr>daily_usage := daily_usage db @ [daily_row_of r]\<rparr>) rows db =
     db\<lparr>daily_usage := daily_usage db @ map daily_row_of rows\<rparr>"
    by (induction rows) simp_all
  ultimately show ?thesis by simp
qed

lemma category_insert_loop_working:
  "for_each (\<lambda>row. execute (insert_daily_category (category_row_of row))) rows c = Inr (u, c') \<Longrightarrow>
   working c' =
     (working c)\<lparr>daily_category_usage :=
        daily_category_usage (working c) @ map category_row_of rows\<rparr> \<and>
   (\<forall>g \<in> set rows. \<forall>e \<in> set (daily_category_usage (working c)).
      category_row_key e \<noteq> category_row_key (category_row_of g))"
proof (induction rows arbitrary: c)
  case Nil
  then show ?case by simp
next
  case (Cons g rows)
  from Cons.prems obtain u1 c1 where
    b: "execute (insert_daily_category (category_row_of g)) c = Inr (u1, c1)" and
    r: "for_each (\<lambda>row. execute (insert_daily_category (category_row_of row))) rows c1 = Inr (u, c')"
    by (auto split: sum.splits)
  from execute_Inr [OF b] have
    w1: "working c1 = (working c)\<lparr>daily_category_usage :=
           daily_category_usage (working c) @ [category_row_of g]\<rparr>" and
    free: "\<forall>e \<in> set (daily_category_usage (working c)).
             category_row_key e \<noteq> category_row_key (category_row_of g)"
    by (auto simp: insert_daily_category_def list_ex_iff split: if_splits)
  from Cons.IH [OF r] w1 free show ?case by auto
qed

lemma daily_body_processed:
  assumes "daily_body c = Inr (DailyProcessed a b n, c')"
  defines "w \<equiv> working c"
  defines "start \<equiv> daily_window_start w"
  defines "data \<equiv> daily_groups start (hourly_usage w)"
  defines "kept \<equiv> filter (\<lambda>r. d_date r \<notin> group_date ` set data) (daily_usage w)"
  defines "catkept \<equiv> filter (\<lambda>r. c_date r \<notin> group_date ` set data) (daily_category_usage w)"
  defines "catdata \<equiv> category_groups start (kept @ map daily_row_of data)"
  shows "committed c' =
           w\<lparr>daily_usage := kept @ map daily_row_of data,
             daily_category_usage := catkept @ map category_row_of catdata\<rparr> \<and>
         (\<forall>g \<in> set catdata. \<forall>e \<in> set catkept.
            category_row_key e \<noteq> category_row_key (category_row_of g))"
proof -
  from assms(1) obtain r c1 dd c2 where
    s1: "execute select_last_processed_date c = Inr (r, c1)" and
    s2: "execute (select_daily_data ((case r of Some d \<Rightarrow> d | None \<Rightarrow> 0) - 1)) c1 = Inr (dd, c2)" and
    rest: "(if dd = [] then Inr (DailyNoData, c2)
            else and_then
                   (for_each (\<lambda>date c. and_then (execute (delete_daily date) c)
                                 (\<lambda>_. execute (delete_daily_category date)))
                      (sort (remdups (map group_date dd))) c2) (\<lambda>_ c3.
                 and_then (for_each (\<lambda>row. execute (insert_daily (daily_row_of row))) dd c3) (\<lambda>_ c4.
                 and_then (execute (select_category_data ((case r of Some d \<Rightarrow> d | None \<Rightarrow> 0) - 1)) c4)
                   (\<lambda>category_data c5.
                 and_then (for_each (\<lambda>row. execute (insert_daily_category (category_row_of row)))
                             category_data c5) (\<lambda>_ c6.
                 and_then (commit c6) (\<lambda>_ c7.
                   Inr (DailyProcessed (length dd) (length category_data)
                          (length (sort (remdups (map group_date dd)))), c7)))))))
           = Inr (DailyProcessed a b n, c')"
    unfolding daily_body_def Let_def and_then_Inr by blast
  from execute_Inr [OF s1] have r: "r = sql_max (map d_date (daily_usage w))"
    and w1: "working c1 = w"
    by (auto simp: select_last_processed_date_def w_def)
  then have st: "(case r of Some d \<Rightarrow> d | None \<Rightarrow> 0) - 1 = start"
    by (simp add: start_def daily_window_start_def)
  from execute_Inr [OF s2] w1 st have dd: "dd = data" and w2: "working c2 = w"
    by (auto simp: select_daily_data_def data_def)
  from rest have ne: "dd \<noteq> []" by (auto split: if_splits)
  with rest st obtain u3 c3 u4 c4 cd c5 u6 c6 u7 where
    d: "for_each (\<lambda>date c. and_then (execute (delete_daily date) c)
                                 (\<lambda>_. execute (delete_daily_category date)))
          (sort (remdups (map group_date dd))) c2 = Inr (u3, c3)" and
    i: "for_each (\<lambda>row. execute (insert_daily (daily_row_of row))) dd c3 = Inr (u4, c4)" and
    s: "execute (select_category_data start) c4 = Inr (cd, c5)" and
    j: "for_each (\<lambda>row. execute (insert_daily_category (category_row_of row))) cd c5 = Inr (u6, c6)" and
    k: "commit c6 = Inr (u7, c')"
    by (auto simp: and_then_Inr)
  from daily_delete_loop_working [OF d] w2 dd
  have w3: "working c3 = w\<lparr>daily_usage := kept, daily_category_usage := catkept\<rparr>"
    by (simp add: kept_def catkept_def)
  from daily_insert_loop_working [OF i] w3 dd
  have w4: "working c4 = w\<lparr>daily_usage := kept @ map daily_row_of data,
                            daily_category_usage := catkept\<rparr>"
    by simp
  from execute_Inr [OF s] w4 have cd: "cd = catdata" and w5: "working c5 = working c4"
    by (auto simp: select_category_data_def catdata_def)
  from category_insert_loop_working [OF j] w5 w4 cd commit_Inr [OF k]
  show ?thesis by simp
qed

section \<open>Grouping and sums\<close>

lemma sum_list_filter_split:
  assumes "\<And>x. x \<in> set xs \<Longrightarrow> \<not> (P x \<and> Q x)"
  shows "sum_list (map f (filter (\<lambda>x. P x \<or> Q x) xs)) =
         sum_list (map f (filter P xs)) + sum_list (map (f :: 'a \<Rightarrow> int) (filter Q xs))"
  using assms by (induction xs) auto

lemma sum_over_keys:
  assumes "distinct ks"
  shows "sum_list (map (\<lambda>k. sum_list (map f (filter (\<lambda>x. key x = k) xs))) ks) =
         sum_list (map (f :: 'a \<Rightarrow> int) (filter (\<lambda>x. key x \<in> set ks) xs))"
  using assms
proof (induction ks)
  case Nil
  show ?case by simp
next
  case (Cons k ks)
  have "sum_list (map f (filter (\<lambda>x. key x = k \<or> key x \<in> set ks) xs)) =
        sum_list (map f (filter (\<lambda>x. key x = k) xs)) +
        sum_list (map f (filter (\<lambda>x. key x \<in> set ks) xs))"
    using Cons.prems by (intro sum_list_filter_split) auto
  with Cons show ?case by simp
qed

lemma sum_groups:
  "sum_list (map (\<lambda>g. sum_list (map f (snd g))) (group_by key xs)) =
   sum_list (map (f :: 'a \<Rightarrow> int) xs)"
proof -
  have "sum_list (map (\<lambda>g. sum_list (map f (snd g))) (group_by key xs)) =
        sum_list (map (\<lambda>k. sum_list (map f (filter (\<lambda>x. key x = k) xs))) (remdups (map key xs)))"
    by (simp add: group_by_def comp_def)
  also have "\<dots> = sum_list (map f (filter (\<lambda>x. key x \<in> set (remdups (map key xs))) xs))"
    by (rule sum_over_keys) simp
  also have "filter (\<lambda>x. key x \<in> set (remdups (map key xs))) xs = xs"
    by (induction xs) auto
  finally show ?thesis .
qed

lemma filter_group_by:
  "filter (\<lambda>g. Q (fst g)) (group_by key xs) = group_by key (filter (\<lambda>x. Q (key x)) xs)"
proof -
  let ?ys = "filter (\<lambda>x. Q (key x)) xs"
  have m: "map key ?ys = filter Q (map key xs)"
    by (induction xs) auto
  have ks: "filter Q (remdups (map key xs)) = remdups (map key ?ys)"
    unfolding m by (simp add: remdups_filter)
  have "filter (\<lambda>g. Q (fst g)) (group_by key xs) =
        map (\<lambda>k. (k, filter (\<lambda>x. key x = k) xs)) (filter Q (remdups (map key xs)))"
    by (simp add: group_by_def filter_map comp_def)
  also have "\<dots> = map (\<lambda>k. (k, filter (\<lambda>x. key x = k) xs)) (remdups (map key ?ys))"
    by (simp only: ks)
  also have "\<dots> = map (\<lambda>k. (k, filter (\<lambda>x. key x = k) ?ys)) (remdups (map key ?ys))"
  proof (rule map_cong [OF refl])
    fix k assume "k \<in> set (remdups (map key ?ys))"
    then have "Q k" by auto
    then have "filter (\<lambda>x. key x = k) ?ys = filter (\<lambda>x. key x = k) xs"
      by (induction xs) auto
    then show "(k, filter (\<lambda>x. key x = k) xs) = (k, filter (\<lambda>x. key x = k) ?ys)"
      by simp
  qed
  finally show ?thesis by (simp add: group_by_def)
qed

lemma category_rows_total:
  "sum_list (map c_total_seconds
     (filter (\<lambda>r. c_date r = d) (map category_row_of (category_groups start ys)))) =
   sum_list (map d_total_seconds (filter (\<lambda>r. d_date r = d \<and> d_date r \<ge> start) ys))"
proof -
  let ?zs = "filter (\<lambda>r. d_date r \<ge> start) ys"
  let ?ws = "filter (\<lambda>r. fst (daily_category_key r) = d) ?zs"
  let ?agg = "\<lambda>g :: category_key \<times> daily_row list. (fst g, sum_list (map d_total_seconds (snd g)))"
  have cg: "category_groups start ys = map ?agg (group_by daily_category_key ?zs)"
    by (simp add: category_groups_def case_prod_beta)
  have fg: "filter (\<lambda>g. fst (fst g) = d) (group_by daily_category_key ?zs) =
            group_by daily_category_key ?ws"
    by (rule filter_group_by [where Q = "\<lambda>k. fst k = d"])
  have "filter (\<lambda>r. c_date r = d) (map category_row_of (map ?agg (group_by daily_category_key ?zs))) =
        map category_row_of (map ?agg
          (filter (\<lambda>g. fst (fst g) = d) (group_by daily_category_key ?zs)))"
    by (simp add: filter_map comp_def category_row_of_def case_prod_beta)
  then have rows: "filter (\<lambda>r. c_date r = d) (map category_row_of (category_groups start ys)) =
        map category_row_of (map ?agg (group_by daily_category_key ?ws))"
    by (simp only: cg fg)
  have tot: "sum_list (map c_total_seconds (map category_row_of (map ?agg G))) =
        sum_list (map (\<lambda>g. sum_list (map d_total_seconds (snd g))) G)" for G
    by (simp add: comp_def category_row_of_def case_prod_beta)
  have ws: "?ws = filter (\<lambda>r. d_date r = d \<and> d_date r \<ge> start) ys"
    by (simp add: daily_category_key_def conj_commute)
  have "sum_list (map c_total_seconds
     (filter (\<lambda>r. c_date r = d) (map category_row_of (category_groups start ys)))) =
     sum_list (map (\<lambda>g. sum_list (map d_total_seconds (snd g))) (group_by daily_category_key ?ws))"
    by (simp only: rows tot)
  also have "\<dots> = sum_list (map d_total_seconds ?ws)"
    by (rule sum_groups)
  finally show ?thesis by (simp only: ws)
qed

lemma category_groups_member:
  assumes "r \<in> set ys" and "d_date r \<ge> start"
  shows "\<exists>g \<in> set (category_groups start ys).
           category_row_key (category_row_of g) = daily_category_key r"
proof -
  from assms have "r \<in> set (filter (\<lambda>r. d_date r \<ge> start) ys)" by simp
  from group_by_member [OF this, of daily_category_key]
  have "(daily_category_key r,
         sum_list (map d_total_seconds
           (filter (\<lambda>y. daily_category_key y = daily_category_key r)
              (filter (\<lambda>r. d_date r \<ge> start) ys))))
        \<in> set (category_groups start ys)"
    unfolding category_groups_def by (force simp: image_iff)
  then show ?thesis
    by (rule rev_bexI) (simp add: category_row_of_def category_row_key_def case_prod_beta)
qed

lemma daily_groups_date:
  assumes "g \<in> set (daily_groups start hs)"
  shows "group_date g \<ge> start"
proof -
  from assms obtain k rs where
    "g = (k, sum_list (map h_total_seconds rs), sum_list (map h_event_count rs))" and
    "(k, rs) \<in> set (group_by hourly_daily_key (filter (\<lambda>r. h_date r \<ge> start) hs))"
    unfolding daily_groups_def by auto
  then show ?thesis
    by (auto simp: group_by_def group_date_def hourly_daily_key_def)
qed

section \<open>The daily tables agree\<close>

lemma process_daily_processed:
  assumes "snd (process_daily_aggregations f db) = [DailyProcessed a b n]"
  defines "start \<equiv> daily_window_start db"
  defines "data \<equiv> daily_groups start (hourly_usage db)"
  defines "kept \<equiv> filter (\<lambda>r. d_date r \<notin> group_date ` set data) (daily_usage db)"
  defines "catkept \<equiv> filter (\<lambda>r. c_date r \<notin> group_date ` set data) (daily_category_usage db)"
  defines "catdata \<equiv> category_groups start (kept @ map daily_row_of data)"
  shows "fst (process_daily_aggregations f db) =
           db\<lparr>daily_usage := kept @ map daily_row_of data,
              daily_category_usage := catkept @ map category_row_of catdata\<rparr> \<and>
         (\<forall>g \<in> set catdata. \<forall>e \<in> set catkept.
            category_row_key e \<noteq> category_row_key (category_row_of g))"
proof (cases "daily_body (connect db f)")
  case (Inl ec)
  with assms(1) show ?thesis
    by (cases ec) (simp add: process_daily_aggregations_def)
next
  case (Inr lc)
  obtain line c where lc: "lc = (line, c)" by (cases lc)
  with assms(1) Inr have "line = DailyProcessed a b n"
    by (simp add: process_daily_aggregations_def)
  with Inr lc have "daily_body (connect db f) = Inr (DailyProcessed a b n, c)" by simp
  from daily_body_processed [OF this] Inr lc show ?thesis
    by (simp add: process_daily_aggregations_def connect_def start_def data_def kept_def
        catkept_def catdata_def)
qed

lemma daily_processed_agree:
  assumes agree: "daily_tables_agree db"
      and completed: "snd (process_daily_aggregations f db) = [DailyProcessed a b n]"
  shows "daily_tables_agree (fst (process_daily_aggregations f db))"
proof -
  define start where "start = daily_window_start db"
  define data where "data = daily_groups start (hourly_usage db)"
  define D where "D = group_date ` set data"
  define kept where "kept = filter (\<lambda>r. d_date r \<notin> D) (daily_usage db)"
  define new where "new = map daily_row_of data"
  define catkept where "catkept = filter (\<lambda>r. c_date r \<notin> D) (daily_category_usage db)"
  define catdata where "catdata = category_groups start (kept @ new)"
  define db' where "db' = fst (process_daily_aggregations f db)"
  from process_daily_processed [OF completed]
  have du: "daily_usage db' = kept @ new"
    and cu: "daily_category_usage db' = catkept @ map category_row_of catdata"
    and free: "\<forall>g \<in> set catdata. \<forall>e \<in> set catkept.
                 category_row_key e \<noteq> category_row_key (category_row_of g)"
    by (simp_all add: db'_def start_def data_def D_def kept_def new_def catkept_def catdata_def)
  from agree have totals: "\<And>d. category_total db d = usage_total db d"
    and covered: "\<And>r. r \<in> set (daily_usage db) \<Longrightarrow>
       \<exists>e \<in> set (daily_category_usage db). category_row_key e = daily_category_key r"
    by (auto simp: daily_tables_agree_def)
  have new_date: "d_date r \<in> D \<and> d_date r \<ge> start" if "r \<in> set new" for r
  proof -
    from that obtain g where g: "g \<in> set data" and r: "r = daily_row_of g"
      by (auto simp: new_def)
    from r have "d_date r = group_date g"
      by (simp add: daily_row_of_def group_date_def case_prod_beta)
    with g daily_groups_date [of g start "hourly_usage db"] show ?thesis
      by (auto simp: D_def data_def)
  qed
  have D_start: "d \<ge> start" if "d \<in> D" for d
    using that daily_groups_date [of _ start "hourly_usage db"]
    by (auto simp: D_def data_def)
  have old_before: "d_date r < start" if r: "r \<in> set kept" for r
  proof (rule ccontr)
    assume "\<not> d_date r < start"
    then have ge: "d_date r \<ge> start" by simp
    from r have old: "r \<in> set (daily_usage db)" and out: "d_date r \<notin> D"
      by (auto simp: kept_def)
    from r have "r \<in> set (kept @ new)" by simp
    from category_groups_member [OF this ge] obtain g where
      g: "g \<in> set catdata" and
      gk: "category_row_key (category_row_of g) = daily_category_key r"
      by (auto simp: catdata_def)
    from covered [OF old] obtain e where
      e: "e \<in> set (daily_category_usage db)" and ek: "category_row_key e = daily_category_key r"
      by auto
    from ek have "c_date e = d_date r"
      by (simp add: category_row_key_def daily_category_key_def)
    with e out have "e \<in> set catkept" by (simp add: catkept_def)
    with free g gk ek show False by auto
  qed
  have totals': "category_total db' d = usage_total db' d" for d
  proof -
    have ct: "category_total db' d =
        sum_list (map c_total_seconds (filter (\<lambda>r. c_date r = d) catkept)) +
        sum_list (map d_total_seconds (filter (\<lambda>r. d_date r = d \<and> d_date r \<ge> start) (kept @ new)))"
      by (simp add: category_total_def cu catdata_def category_rows_total)
    have ut: "usage_total db' d =
        sum_list (map d_total_seconds (filter (\<lambda>r. d_date r = d) kept)) +
        sum_list (map d_total_seconds (filter (\<lambda>r. d_date r = d) new))"
      by (simp add: usage_total_def du)
    have k0: "filter (\<lambda>r. d_date r = d \<and> d_date r \<ge> start) kept = []"
      using old_before by (fastforce simp: filter_empty_conv)
    have n0: "filter (\<lambda>r. d_date r = d \<and> d_date r \<ge> start) new = filter (\<lambda>r. d_date r = d) new"
      using new_date by (intro filter_cong) auto
    show ?thesis
    proof (cases "d \<in> D")
      case True
      then have "filter (\<lambda>r. c_date r = d) catkept = []"
        and "filter (\<lambda>r. d_date r = d) kept = []"
        by (auto simp: catkept_def kept_def filter_empty_conv)
      with ct ut k0 n0 show ?thesis by simp
    next
      case False
      then have "filter (\<lambda>r. d_date r = d) new = []"
        using new_date by (auto simp: filter_empty_conv)
      moreover from False have "filter (\<lambda>r. c_date r = d) catkept =
          filter (\<lambda>r. c_date r = d) (daily_category_usage db)"
        unfolding catkept_def filter_filter by (auto intro!: filter_cong)
      moreover from False have "filter (\<lambda>r. d_date r = d) kept =
          filter (\<lambda>r. d_date r = d) (daily_usage db)"
        unfolding kept_def filter_filter by (auto intro!: filter_cong)
      ultimately show ?thesis
        using ct ut k0 n0 totals [of d]
        by (simp add: category_total_def usage_total_def)
    qed
  qed
  have covered': "\<exists>e \<in> set (daily_category_usage db'). category_row_key e = daily_category_key r"
    if r: "r \<in> set (daily_usage db')" for r
  proof (cases "r \<in> set new")
    case True
    with new_date have ge: "d_date r \<ge> start" by simp
    from True have "r \<in> set (kept @ new)" by simp
    from category_groups_member [OF this ge] show ?thesis
      by (auto simp: cu catdata_def)
  next
    case False
    with r du have k: "r \<in> set kept" by simp
    then have old: "r \<in> set (daily_usage db)" and out: "d_date r \<notin> D"
      by (auto simp: kept_def)
    from covered [OF old] obtain e where
      e: "e \<in> set (daily_category_usage db)" and ek: "category_row_key e = daily_category_key r"
      by auto
    from ek have "c_date e = d_date r"
      by (simp add: category_row_key_def daily_category_key_def)
    with e out have "e \<in> set catkept" by (simp add: catkept_def)
    with ek show ?thesis by (auto simp: cu)
  qed
  from totals' covered' show ?thesis
    unfolding daily_tables_agree_def db'_def by blast
qed

lemma daily_tables_agree_cong:
  assumes "daily_usage db' = daily_usage db"
      and "daily_category_usage db' = daily_category_usage db"
  shows "daily_tables_agree db' = daily_tables_agree db"
  using assms by (simp add: daily_tables_agree_def category_total_def usage_total_def)

lemma hourly_body_no_data:
  assumes "hourly_body lower cm c = Inr (HourlyNoData, c')"
  shows "committed c' = committed c"
proof -
  from assms obtain r c1 hd c2 where
    s1: "execute select_last_processed_ts c = Inr (r, c1)" and
    s2: "execute (select_hourly_data
           ((case r of Some t \<Rightarrow> t | None \<Rightarrow> instant 0 0 0 0 0) - 2 * us_per_hour)) c1 = Inr (hd, c2)" and
    rest: "(if hd = [] then Inr (HourlyNoData, c2)
            else and_then (for_each (\<lambda>slot. execute (delete_hourly slot)) (remdups (map hour_slot hd)) c2)
                   (\<lambda>_ c3. and_then (for_each (\<lambda>row. execute (insert_hourly (hourly_row_of lower cm row))) hd c3)
                   (\<lambda>_ c4. and_then (commit c4)
                   (\<lambda>_ c5. Inr (HourlyProcessed (length hd) (length (remdups (map hour_slot hd))), c5)))))
           = Inr (HourlyNoData, c')"
    unfolding hourly_body_def Let_def and_then_Inr by blast
  from rest have "c' = c2"
    by (auto simp: and_then_Inr split: if_splits)
  with execute_Inr [OF s1] execute_Inr [OF s2] show ?thesis by simp
qed

lemma hourly_body_lines:
  assumes "hourly_body lower cm c = Inr (line, c')"
  shows "line = HourlyNoData \<or> (\<exists>n m. line = HourlyProcessed n m)"
  using assms unfolding hourly_body_def Let_def
  by (auto simp: and_then_Inr split: if_splits)

lemma process_hourly_daily_tables:
  "daily_usage (fst (process_hourly_aggregations lower f cm db)) = daily_usage db \<and>
   daily_category_usage (fst (process_hourly_aggregations lower f cm db)) = daily_category_usage db"
proof (cases "hourly_body lower cm (connect db f)")
  case (Inl ec)
  obtain e c where ec: "ec = (e, c)" by (cases ec)
  with Inl have "snd (process_hourly_aggregations lower f cm db) = [HourlyError e]"
    by (simp add: process_hourly_aggregations_def)
  from process_hourly_error [OF this] show ?thesis by simp
next
  case (Inr lc)
  obtain line c where lc: "lc = (line, c)" by (cases lc)
  from hourly_body_lines [of lower cm "connect db f" line c] Inr lc
  consider "line = HourlyNoData" | n m where "line = HourlyProcessed n m" by auto
  then show ?thesis
  proof cases
    case 1
    with Inr lc hourly_body_no_data [of lower cm "connect db f" c] show ?thesis
      by (simp add: process_hourly_aggregations_def connect_def)
  next
    case 2
    with Inr lc have "snd (process_hourly_aggregations lower f cm db) = [HourlyProcessed n m]"
      by (simp add: process_hourly_aggregations_def)
    from process_hourly_processed [OF this] show ?thesis by simp
  qed
qed

lemma process_app_categories_daily_tables:
  "daily_usage (fst (update_app_categories_table f cm db)) = daily_usage db \<and>
   daily_category_usage (fst (update_app_categories_table f cm db)) = daily_category_usage db"
proof (cases "app_categories_body cm (connect db f)")
  case (Inl ec)
  obtain e c where ec: "ec = (e, c)" by (cases ec)
  from fails_clean_app_categories_body [of cm] Inl ec
  have "committed c = committed (connect db f)"
    by (auto simp: fails_clean_def split: sum.splits prod.splits)
  with Inl ec show ?thesis
    by (simp add: update_app_categories_table_def connect_def)
next
  case (Inr lc)
  obtain line c where lc: "lc = (line, c)" by (cases lc)
  from app_categories_body_Inr [of cm "connect db f" line c] Inr lc show ?thesis
    by (simp add: update_app_categories_table_def connect_def)
qed

lemma daily_body_no_data:
  assumes "daily_body c = Inr (DailyNoData, c')"
  shows "committed c' = committed c"
proof -
  from assms obtain r c1 dd c2 where
    s1: "execute select_last_processed_date c = Inr (r, c1)" and
    s2: "execute (select_daily_data ((case r of Some d \<Rightarrow> d | None \<Rightarrow> 0) - 1)) c1 = Inr (dd, c2)" and
    rest: "(if dd = [] then Inr (DailyNoData, c2)
            else and_then
                   (for_each (\<lambda>date c. and_then (execute (delete_daily date) c)
                                 (\<lambda>_. execute (delete_daily_category date)))
                      (sort (remdups (map group_date dd))) c2) (\<lambda>_ c3.
                 and_then (for_each (\<lambda>row. execute (insert_daily (daily_row_of row))) dd c3) (\<lambda>_ c4.
                 and_then (execute (select_category_data ((case r of Some d \<Rightarrow> d | None \<Rightarrow> 0) - 1)) c4)
                   (\<lambda>category_data c5.
                 and_then (for_each (\<lambda>row. execute (insert_daily_category (category_row_of row)))
                             category_data c5) (\<lambda>_ c6.
                 and_then (commit c6) (\<lambda>_ c7.
                   Inr (DailyProcessed (length dd) (length category_data)
                          (length (sort (remdups (map group_date dd)))), c7)))))))
           = Inr (DailyNoData, c')"
    unfolding daily_body_def Let_def and_then_Inr by blast
  from rest have "c' = c2"
    by (auto simp: and_then_Inr split: if_splits)
  with execute_Inr [OF s1] execute_Inr [OF s2] show ?thesis by simp
qed

lemma daily_body_lines:
  assumes "daily_body c = Inr (line, c')"
  shows "line = DailyNoData \<or> (\<exists>a b n. line = DailyProcessed a b n)"
  using assms unfolding daily_body_def Let_def
  by (auto simp: and_then_Inr split: if_splits)

lemma process_daily_agree:
  assumes "daily_tables_agree db"
  shows "daily_tables_agree (fst (process_daily_aggregations f db))"
proof (cases "daily_body (connect db f)")
  case (Inl ec)
  obtain e c where ec: "ec = (e, c)" by (cases ec)
  from fails_clean_daily_body Inl ec
  have "committed c = committed (connect db f)"
    by (auto simp: fails_clean_def split: sum.splits prod.splits)
  with Inl ec assms show ?thesis
    by (simp add: process_daily_aggregations_def connect_def)
next
  case (Inr lc)
  obtain line c where lc: "lc = (line, c)" by (cases lc)
  from daily_body_lines [of "connect db f" line c] Inr lc
  consider "line = DailyNoData" | a b n where "line = DailyProcessed a b n" by auto
  then show ?thesis
  proof cases
    case 1
    with Inr lc daily_body_no_data [of "connect db f" c] assms show ?thesis
      by (simp add: process_daily_aggregations_def connect_def)
  next
    case 2
    with Inr lc have "snd (process_daily_aggregations f db) = [DailyProcessed a b n]"
      by (simp add: process_daily_aggregations_def)
    from daily_processed_agree [OF assms this] show ?thesis .
  qed
qed

lemma reachable_agree: "reachable db \<Longrightarrow> daily_tables_agree db"
proof (induction rule: reachable.induct)
  case initial
  show ?case
    by (simp add: daily_tables_agree_def empty_database_def category_total_def usage_total_def)
next
  case (saved db e)
  have "daily_tables_agree (save_event e db) = daily_tables_agree db"
    by (rule daily_tables_agree_cong) (simp_all add: save_event_def)
  with saved show ?case by simp
next
  case (app_categories_updated db f cm)
  have "daily_tables_agree (fst (update_app_categories_table f cm db)) = daily_tables_agree db"
    by (rule daily_tables_agree_cong) (simp_all add: process_app_categories_daily_tables)
  with app_categories_updated show ?case by simp
next
  case (hourly_processed db lower f cm)
  have "daily_tables_agree (fst (process_hourly_aggregations lower f cm db)) = daily_tables_agree db"
    by (rule daily_tables_agree_cong) (simp_all add: process_hourly_daily_tables)
  with hourly_processed show ?case by simp
next
  case (daily_processed db f)
  then show ?case by (simp add: process_daily_agree)
qed

text \<open>
  C5. In every database the system produces, after a daily pass has completed, the sum
  of \<open>total_seconds\<close> over the category rows of a date equals the sum of
  \<open>total_seconds\<close> over the usage rows of that date, for every date.
\<close>

theorem daily_totals_consistent:
  assumes "reachable db"
      and "snd (process_daily_aggregations f db) = [DailyProcessed a b n]"
  shows "category_total (fst (process_daily_aggregations f db)) d =
         usage_total (fst (process_daily_aggregations f db)) d"
proof -
  from assms(1) have "reachable (fst (process_daily_aggregations f db))"
    by (rule reachable.daily_processed)
  from reachable_agree [OF this] show ?thesis
    by (simp add: daily_tables_agree_def)
qed

text \<open>
  \<open>bucketed_events\<close> is what three saved events and an hourly pass produce; the daily
  pass over it completes with one usage row and one category row of thirty seconds.
\<close>

lemma three_events_saved:
  "three_events =
     save_event (desktop_event (instant 19723 10 5 0 125000) ''firefox'' 10)
       (save_event (desktop_event (instant 19723 8 59 59 500000) ''firefox'' 10)
          (save_event (desktop_event (instant 19723 8 30 0 250000) ''firefox'' 10)
             empty_database))"
  by (simp add: three_events_def save_event_def empty_database_def)

lemma reachable_bucketed_events: "reachable bucketed_events"
proof -
  have "reachable three_events"
    unfolding three_events_saved by (intro reachable.saved reachable.initial)
  then have "reachable (fst (process_hourly_aggregations ascii_lower None empty_manager three_events))"
    by (rule reachable.hourly_processed)
  moreover have "fst (process_hourly_aggregations ascii_lower None empty_manager three_events) = bucketed_events"
    by code_simp
  ultimately show ?thesis by simp
qed

theorem daily_totals_consistent_witness:
  "reachable bucketed_events \<and>
   snd (process_daily_aggregations None bucketed_events) = [DailyProcessed 1 1 1] \<and>
   category_total (fst (process_daily_aggregations None bucketed_events)) 19723 = 30 \<and>
   usage_total (fst (process_daily_aggregations None bucketed_events)) 19723 = 30"
proof -
  have h: "snd (process_daily_aggregations None bucketed_events) = [DailyProcessed 1 1 1]"
    by code_simp
  have u: "usage_total (fst (process_daily_aggregations None bucketed_events)) 19723 = 30"
    by code_simp
  from daily_totals_consistent [OF reachable_bucketed_events h, of 19723] u h
    reachable_bucketed_events
  show ?thesis by simp
qed

end
